theory Spec2Isabelle
  imports Complex_Main "HOL-Library.Word" "HOL-Library.Char_ord" "HOL-Library.List_Lexorder"
    "HOL-Library.Product_Lexorder" "HOL-Library.Multiset" "HOL-Library.AList"
begin

section \<open>Common types and helpers\<close>

text \<open>
  \<^verbatim>\<open>std::vector<uint8_t>\<close> is a list of bytes, \<^verbatim>\<open>std::string\<close> is a \<open>string\<close>.
  SHA-256 (OpenSSL) is not code of the repository: every function that hashes takes
  the digest function as a parameter \<open>sha\<close> from the hashed bytes to the digest bytes.
\<close>

type_synonym byte = "8 word"
type_synonym bytes = "byte list"

text \<open>\<^verbatim>\<open>ss << std::hex << std::setw(2) << std::setfill('0') << (int)hash[i]\<close>\<close>

definition hex_digit :: "nat \<Rightarrow> char" where
  "hex_digit n = (''0123456789abcdef'') ! (n mod 16)"

definition hex_byte :: "byte \<Rightarrow> string" where
  "hex_byte b = [hex_digit (unat b div 16), hex_digit (unat b mod 16)]"

definition hex_string :: "bytes \<Rightarrow> string" where
  "hex_string bs = concat (map hex_byte bs)"

text \<open>\<^verbatim>\<open>ss << entry.version\<close>: an unsigned integer printed in decimal.\<close>

fun decimal :: "nat \<Rightarrow> string" where
  "decimal n = (if n < 10 then [hex_digit n] else decimal (n div 10) @ [hex_digit (n mod 10)])"

declare decimal.simps [simp del]

definition string_bytes :: "string \<Rightarrow> bytes" where
  "string_bytes s = map (\<lambda>c. of_nat (of_char c)) s"

section \<open>Telemetry and the placement scheduler (Telemetry.hpp, Scheduler.cpp)\<close>

text \<open>
  The scores are \<^verbatim>\<open>float\<close>s in the source and exact reals here: the model has no
  rounding, no infinity and no NaN. The one place where the source divides by zero is
  written out in \<open>score_device_for_storage\<close>. Sizes (\<^verbatim>\<open>size_t\<close>, \<^verbatim>\<open>uint64_t\<close>) are
  only divided and compared, never added, so they are natural numbers.
\<close>

record telemetry =
  device_id :: string
  battery_percent :: real
  cpu_load_percent :: real
  ram_usage_percent :: real
  idle_percent :: real
  link_quality :: real
  available_storage_mb :: nat
  is_plugged_in :: bool
  timestamp :: int

definition compute_score :: "telemetry \<Rightarrow> real" where
  "compute_score t =
     (if is_plugged_in t then 20 else (battery_percent t / 100) * 20)
     + ((100 - cpu_load_percent t) / 100) * 30
     + ((100 - ram_usage_percent t) / 100) * 20
     + (idle_percent t / 100) * 20
     + link_quality t * 10"

text \<open>The default constructor of \<^verbatim>\<open>Telemetry\<close>, with the clock reading as a parameter.\<close>

definition telemetry_default :: "int \<Rightarrow> telemetry" where
  "telemetry_default now =
     \<lparr>device_id = [], battery_percent = 100, cpu_load_percent = 0, ram_usage_percent = 0,
      idle_percent = 100, link_quality = 1, available_storage_mb = 1024,
      is_plugged_in = False, timestamp = now\<rparr>"

record placement =
  chunk_hash :: string
  device_ids :: "string list"
  score :: real

text \<open>
  \<^verbatim>\<open>devices_\<close> is an \<^verbatim>\<open>unordered_map\<close>; the association list fixes one iteration order
  (the keys are distinct: \<^verbatim>\<open>devices_[id] = telemetry\<close> replaces or appends).
\<close>

record scheduler =
  replication_factor :: int
  devices :: "(string \<times> telemetry) list"

definition scheduler_init :: "int \<Rightarrow> scheduler" where
  "scheduler_init r = \<lparr>replication_factor = r, devices = []\<rparr>"

definition register_device :: "string \<Rightarrow> telemetry \<Rightarrow> scheduler \<Rightarrow> scheduler" where
  "register_device d t s = s\<lparr>devices := AList.update d t (devices s)\<rparr>"

definition update_telemetry :: "string \<Rightarrow> telemetry \<Rightarrow> scheduler \<Rightarrow> scheduler" where
  "update_telemetry d t s = s\<lparr>devices := AList.update d t (devices s)\<rparr>"

text \<open>
  \<^verbatim>\<open>required_mb = data_size_bytes / (1024 * 1024)\<close> is an integer division. When it is 0,
  the \<^verbatim>\<open>float\<close> quotient \<^verbatim>\<open>available_storage_mb / (float)required_mb\<close> is \<open>+\<infinity>\<close> or NaN and
  \<^verbatim>\<open>std::min(30.0f, _)\<close> returns 30 in both cases.
\<close>

definition score_device_for_storage :: "telemetry \<Rightarrow> nat \<Rightarrow> real" where
  "score_device_for_storage t data_size_bytes =
     (let required_mb = data_size_bytes div (1024 * 1024)
      in if available_storage_mb t < required_mb then 0
         else
           (if required_mb = 0 then 30
            else min 30 ((real (available_storage_mb t) / real required_mb) * 5))
           + (if is_plugged_in t then 25 else (battery_percent t / 100) * 25)
           + link_quality t * 25
           + ((100 - cpu_load_percent t) / 100) * 10
           + ((100 - ram_usage_percent t) / 100) * 10)"

definition score_device_for_compute :: "telemetry \<Rightarrow> real" where
  "score_device_for_compute t = compute_score t"

text \<open>
  \<^verbatim>\<open>std::sort\<close> by descending score; the order of equal scores is unspecified in the
  source and is the stable one here.
\<close>

definition select_devices :: "string list \<Rightarrow> real list \<Rightarrow> int \<Rightarrow> string list" where
  "select_devices candidates scores cnt =
     (let pairs = filter (\<lambda>p. 0 < snd p) (zip candidates scores);
          ranked = sort_key (\<lambda>p. - snd p) pairs
      in map fst (take (nat (min cnt (int (length ranked)))) ranked))"

datatype sched_error = Out_Of_Range

text \<open>\<^verbatim>\<open>devices_.at(device_id)\<close> throws \<^verbatim>\<open>std::out_of_range\<close> for an unknown device.\<close>

fun total_storage_score ::
  "(string \<times> telemetry) list \<Rightarrow> nat \<Rightarrow> string list \<Rightarrow> real \<Rightarrow> sched_error + real" where
  "total_storage_score devs sz [] acc = Inr acc"
| "total_storage_score devs sz (d # ds) acc =
     (case map_of devs d of
        None \<Rightarrow> Inl Out_Of_Range
      | Some t \<Rightarrow> total_storage_score devs sz ds (acc + score_device_for_storage t sz))"

definition place_chunk :: "scheduler \<Rightarrow> string \<Rightarrow> nat \<Rightarrow> sched_error + placement" where
  "place_chunk s h chunk_size_bytes =
     (let candidates = map fst (devices s);
          scores = map (\<lambda>(d, t). score_device_for_storage t chunk_size_bytes) (devices s);
          ids = select_devices candidates scores (replication_factor s)
      in case total_storage_score (devices s) chunk_size_bytes ids 0 of
           Inl e \<Rightarrow> Inl e
         | Inr total_score \<Rightarrow>
             Inr \<lparr>chunk_hash = h, device_ids = ids,
                  score = (if ids = [] then 0 else total_score / real (length ids))\<rparr>)"

fun place_chunks :: "scheduler \<Rightarrow> string list \<Rightarrow> nat \<Rightarrow> sched_error + placement list" where
  "place_chunks s [] chunk_size_bytes = Inr []"
| "place_chunks s (h # hs) chunk_size_bytes =
     (case place_chunk s h chunk_size_bytes of
        Inl e \<Rightarrow> Inl e
      | Inr p \<Rightarrow>
          (case place_chunks s hs chunk_size_bytes of
             Inl e \<Rightarrow> Inl e
           | Inr ps \<Rightarrow> Inr (p # ps)))"

definition place_shard :: "scheduler \<Rightarrow> string \<Rightarrow> nat \<Rightarrow> placement" where
  "place_shard s shard_id shard_size_bytes =
     (let candidates = map fst (devices s);
          scores = map (\<lambda>(d, t). score_device_for_storage t shard_size_bytes * (4 / 10)
                                  + score_device_for_compute t * (6 / 10)) (devices s);
          ids = select_devices candidates scores (replication_factor s);
          total_score = sum_list (map snd (filter (\<lambda>p. fst p \<in> set ids) (zip candidates scores)))
      in \<lparr>chunk_hash = shard_id, device_ids = ids,
          score = (if ids = [] then 0 else total_score / real (length ids))\<rparr>)"

definition get_compute_devices :: "scheduler \<Rightarrow> int \<Rightarrow> string list" where
  "get_compute_devices s cnt =
     select_devices (map fst (devices s))
       (map (\<lambda>(d, t). score_device_for_compute t) (devices s)) cnt"

text \<open>
  Two devices with the default telemetry: \<open>small_device\<close> has 1 MB of free storage,
  \<open>full_device\<close> has none.
\<close>

definition small_device :: telemetry where
  "small_device = (telemetry_default 0)\<lparr>device_id := ''d1'', available_storage_mb := 1\<rparr>"

definition full_device :: telemetry where
  "full_device = (telemetry_default 0)\<lparr>device_id := ''d2'', available_storage_mb := 0\<rparr>"


section \<open>Consensus: the DAG ledger (Consensus.cpp)\<close>

text \<open>
  A \<^verbatim>\<open>system_clock::time_point\<close> is a signed tick count, compared as an integer;
  \<^verbatim>\<open>version\<close> is a \<^verbatim>\<open>uint64_t\<close>. The ledger stores shared pointers to entries that
  nothing mutates after insertion, so an entry is modelled by its value.
\<close>

record dag_entry =
  entry_id :: string
  chunk_hash :: string
  device_ids :: "string list"
  parent_ids :: "string list"
  timestamp :: int
  version :: "64 word"
  creator :: string

record consensus =
  dag :: "string \<rightharpoonup> dag_entry list"
  entry_by_id :: "string \<rightharpoonup> dag_entry"

definition consensus_init :: consensus where
  "consensus_init = \<lparr>dag = Map.empty, entry_by_id = Map.empty\<rparr>"

definition generate_entry_id :: "(bytes \<Rightarrow> bytes) \<Rightarrow> dag_entry \<Rightarrow> string" where
  "generate_entry_id sha entry =
     hex_string (sha (string_bytes
       (chunk_hash entry @ concat (device_ids entry) @ decimal (unat (version entry)))))"

text \<open>\<^verbatim>\<open>dag_[chunk_hash]\<close> creates an empty history when the key is absent.\<close>

definition history_of :: "consensus \<Rightarrow> string \<Rightarrow> dag_entry list" where
  "history_of st h = (case dag st h of None \<Rightarrow> [] | Some es \<Rightarrow> es)"

text \<open>
  \<^verbatim>\<open>add_entry\<close> reads the wall clock; the reading is the parameter \<open>now\<close>.
  It returns the new entry id and the updated ledger.
\<close>

definition add_entry ::
  "(bytes \<Rightarrow> bytes) \<Rightarrow> int \<Rightarrow> string \<Rightarrow> string list \<Rightarrow> string \<Rightarrow> consensus \<Rightarrow> string \<times> consensus"
where
  "add_entry sha now ch devs cr st =
     (let history = history_of st ch;
          entry0 = \<lparr>entry_id = [], chunk_hash = ch, device_ids = devs,
                    parent_ids = (if history \<noteq> [] then [entry_id (last history)] else []),
                    timestamp = now,
                    version = (if history \<noteq> [] then version (last history) + 1 else 1),
                    creator = cr\<rparr>;
          entry = entry0\<lparr>entry_id := generate_entry_id sha entry0\<rparr>
      in (entry_id entry,
          st\<lparr>dag := (dag st)(ch \<mapsto> history @ [entry]),
             entry_by_id := (entry_by_id st)(entry_id entry \<mapsto> entry)\<rparr>))"

definition get_latest :: "consensus \<Rightarrow> string \<Rightarrow> dag_entry option" where
  "get_latest st h =
     (case dag st h of
        None \<Rightarrow> None
      | Some es \<Rightarrow> if es \<noteq> [] then Some (last es) else None)"

definition get_history :: "consensus \<Rightarrow> string \<Rightarrow> dag_entry list" where
  "get_history st h = (case dag st h of None \<Rightarrow> [] | Some es \<Rightarrow> es)"

text \<open>
  \<^verbatim>\<open>std::lower_bound\<close> is the library's binary search: it halves the range
  \<open>[first, first + len)\<close> until it is empty. On a range partitioned by the comparison
  it finds the first position whose element is not less than the value; the search is
  written out so that the model also says what happens on any other range.
\<close>

function lower_bound_loop :: "('a \<Rightarrow> 'b \<Rightarrow> bool) \<Rightarrow> 'a list \<Rightarrow> 'b \<Rightarrow> nat \<Rightarrow> nat \<Rightarrow> nat" where
  "lower_bound_loop cmp xs v first len =
     (if 0 < len then
        (let half = len div 2; middle = first + half
         in if cmp (xs ! middle) v
            then lower_bound_loop cmp xs v (middle + 1) (len - half - 1)
            else lower_bound_loop cmp xs v first half)
      else first)"
  by pat_completeness auto
termination
  by (relation "measure (\<lambda>(cmp, xs, v, first, len). len)") auto

declare lower_bound_loop.simps [simp del]

definition lower_bound :: "('a \<Rightarrow> 'b \<Rightarrow> bool) \<Rightarrow> 'a list \<Rightarrow> 'b \<Rightarrow> nat" where
  "lower_bound cmp xs v = lower_bound_loop cmp xs v 0 (length xs)"

definition insert_at :: "nat \<Rightarrow> 'a \<Rightarrow> 'a list \<Rightarrow> 'a list" where
  "insert_at pos x xs = take pos xs @ x # drop pos xs"

definition merge_entry :: "dag_entry \<Rightarrow> consensus \<Rightarrow> consensus" where
  "merge_entry entry st =
     (if entry_by_id st (entry_id entry) \<noteq> None then st
      else
        (let history = history_of st (chunk_hash entry);
             insert_pos = lower_bound (\<lambda>a b. timestamp a < timestamp b) history entry
         in st\<lparr>dag := (dag st)(chunk_hash entry \<mapsto> insert_at insert_pos entry history),
               entry_by_id := (entry_by_id st)(entry_id entry \<mapsto> entry)\<rparr>))"

definition merge_all :: "dag_entry list \<Rightarrow> consensus \<Rightarrow> consensus" where
  "merge_all es st = fold merge_entry es st"

text \<open>
  Ledger states reachable from the empty ledger by any interleaving of \<^verbatim>\<open>add_entry\<close> and
  \<^verbatim>\<open>merge_entry\<close>, with any clock readings and any merged entries.
\<close>

inductive reachable :: "(bytes \<Rightarrow> bytes) \<Rightarrow> consensus \<Rightarrow> bool" for sha where
  reach_init: "reachable sha consensus_init"
| reach_add: "reachable sha st \<Longrightarrow> reachable sha (snd (add_entry sha now ch devs cr st))"
| reach_merge: "reachable sha st \<Longrightarrow> reachable sha (merge_entry e st)"

text \<open>
  The same, where the clock read by each \<^verbatim>\<open>add_entry\<close> is not behind any timestamp
  already recorded for its chunk.
\<close>

inductive reachable_ordered :: "(bytes \<Rightarrow> bytes) \<Rightarrow> consensus \<Rightarrow> bool" for sha where
  ord_init: "reachable_ordered sha consensus_init"
| ord_add: "reachable_ordered sha st \<Longrightarrow> \<forall>x \<in> set (get_history st ch). timestamp x \<le> now
     \<Longrightarrow> reachable_ordered sha (snd (add_entry sha now ch devs cr st))"
| ord_merge: "reachable_ordered sha st \<Longrightarrow> reachable_ordered sha (merge_entry e st)"

definition sorted_ledger :: "consensus \<Rightarrow> bool" where
  "sorted_ledger st \<longleftrightarrow> (\<forall>h. sorted (map timestamp (get_history st h)))"

text \<open>Three entries for the chunk \<open>H\<close>: two with the same timestamp, one later.\<close>

definition entry_a :: dag_entry where
  "entry_a = \<lparr>entry_id = ''a'', chunk_hash = ''H'', device_ids = [''d1''], parent_ids = [],
              timestamp = 100, version = 1, creator = ''A''\<rparr>"

definition entry_b :: dag_entry where
  "entry_b = \<lparr>entry_id = ''b'', chunk_hash = ''H'', device_ids = [''d2''], parent_ids = [],
              timestamp = 100, version = 1, creator = ''B''\<rparr>"

definition entry_c :: dag_entry where
  "entry_c = \<lparr>entry_id = ''c'', chunk_hash = ''H'', device_ids = [''d3''], parent_ids = [],
              timestamp = 200, version = 2, creator = ''C''\<rparr>"


section \<open>ChunkStore (ChunkStore.cpp)\<close>

text \<open>
  The libraries the store calls are parameters, collected in one record: the SHA-256
  digest, zstd (\<open>None\<close> is \<^verbatim>\<open>ZSTD_isError\<close>), PBKDF2 and AES-256-GCM of OpenSSL
  (\<open>None\<close> is a failed call; for the decryption also a tag that does not verify), and
  the \<^verbatim>\<open>Put\<close> and \<^verbatim>\<open>Get\<close> of the key/value store over an abstract database \<open>'db\<close>
  (\<^verbatim>\<open>Put\<close> returns the new database and whether the status is ok).
\<close>

record 'db externals =
  sha256 :: "bytes \<Rightarrow> bytes"
  zstd_compress :: "bytes \<Rightarrow> bytes option"
  zstd_decompress :: "bytes \<Rightarrow> nat \<Rightarrow> bytes option"
  pbkdf2 :: "string \<Rightarrow> bytes \<Rightarrow> bytes option"
  gcm_encrypt :: "bytes \<Rightarrow> bytes \<Rightarrow> bytes \<Rightarrow> (bytes \<times> bytes) option"
  gcm_decrypt :: "bytes \<Rightarrow> bytes \<Rightarrow> bytes \<Rightarrow> bytes \<Rightarrow> bytes option"
  db_put :: "string \<Rightarrow> bytes \<Rightarrow> 'db \<Rightarrow> 'db \<times> bool"
  db_get :: "string \<Rightarrow> 'db \<Rightarrow> bytes option"

record chunk =
  hash :: string
  data :: bytes
  iv :: bytes
  tag :: bytes
  original_size :: nat
  index :: nat
  is_encrypted :: bool

text \<open>
  The state of a store: its members, and the bytes that the process-wide random source
  will deliver next (\<^verbatim>\<open>RAND_bytes\<close> fails when they run out).
\<close>

record 'db chunk_store =
  chunk_size :: nat
  chunks :: "string \<rightharpoonup> chunk"
  content_map :: "string \<rightharpoonup> string list"
  db :: 'db
  rng :: bytes

text \<open>
  Every \<^verbatim>\<open>std::runtime_error\<close> thrown is a value. \<open>Undefined_Behaviour\<close> marks the
  places where the source divides by zero or reads past the end of a buffer.
\<close>

datatype store_error =
    Compression_Failed
  | Decompression_Failed
  | Random_Failed
  | Key_Derivation_Failed
  | Encryption_Failed
  | Authentication_Failed
  | Content_Not_Found
  | Chunk_Not_Found
  | Undefined_Behaviour

definition compress :: "'db externals \<Rightarrow> bytes \<Rightarrow> store_error + bytes" where
  "compress X bs = (case zstd_compress X bs of None \<Rightarrow> Inl Compression_Failed | Some c \<Rightarrow> Inr c)"

text \<open>
  \<^verbatim>\<open>decompress\<close> returns a buffer of \<open>original_size\<close> bytes, zero-initialised, into which
  zstd wrote its output; the number of bytes written is not compared with the size.
\<close>

definition decompress :: "'db externals \<Rightarrow> bytes \<Rightarrow> nat \<Rightarrow> store_error + bytes" where
  "decompress X bs size_orig =
     (case zstd_decompress X bs size_orig of
        None \<Rightarrow> Inl Decompression_Failed
      | Some out \<Rightarrow> Inr (take size_orig (out @ replicate (size_orig - length out) 0)))"

definition generate_random ::
  "nat \<Rightarrow> 'db chunk_store \<Rightarrow> (store_error + bytes) \<times> 'db chunk_store" where
  "generate_random n st =
     (if n \<le> length (rng st) then (Inr (take n (rng st)), st\<lparr>rng := drop n (rng st)\<rparr>)
      else (Inl Random_Failed, st))"

definition derive_key :: "'db externals \<Rightarrow> string \<Rightarrow> bytes \<Rightarrow> store_error + bytes" where
  "derive_key X content_id salt =
     (case pbkdf2 X content_id salt of None \<Rightarrow> Inl Key_Derivation_Failed | Some k \<Rightarrow> Inr k)"

text \<open>\<^verbatim>\<open>aes_gcm_encrypt\<close> returns the ciphertext, the fresh IV and the tag.\<close>

definition aes_gcm_encrypt ::
  "'db externals \<Rightarrow> bytes \<Rightarrow> bytes \<Rightarrow> 'db chunk_store
     \<Rightarrow> (store_error + bytes \<times> bytes \<times> bytes) \<times> 'db chunk_store" where
  "aes_gcm_encrypt X plaintext key st =
     (case generate_random 12 st of
        (Inl e, st') \<Rightarrow> (Inl e, st')
      | (Inr new_iv, st') \<Rightarrow>
          (case gcm_encrypt X key new_iv plaintext of
             None \<Rightarrow> (Inl Encryption_Failed, st')
           | Some (ciphertext, new_tag) \<Rightarrow> (Inr (ciphertext, new_iv, new_tag), st')))"

definition aes_gcm_decrypt ::
  "'db externals \<Rightarrow> bytes \<Rightarrow> bytes \<Rightarrow> bytes \<Rightarrow> bytes \<Rightarrow> store_error + bytes" where
  "aes_gcm_decrypt X ciphertext key an_iv a_tag =
     (case gcm_decrypt X key an_iv ciphertext a_tag of
        None \<Rightarrow> Inl Authentication_Failed
      | Some plaintext \<Rightarrow> Inr plaintext)"

definition compute_hash :: "'db externals \<Rightarrow> bytes \<Rightarrow> string" where
  "compute_hash X bs = hex_string (sha256 X bs)"

subsection \<open>Persistence\<close>

text \<open>The raw bytes of an unsigned integer of \<open>n\<close> bytes, least significant first.\<close>

fun le_bytes :: "nat \<Rightarrow> nat \<Rightarrow> bytes" where
  "le_bytes 0 v = []"
| "le_bytes (Suc n) v = of_nat (v mod 256) # le_bytes n (v div 256)"

fun le_nat :: "bytes \<Rightarrow> nat" where
  "le_nat [] = 0"
| "le_nat (b # bs) = unat b + 256 * le_nat bs"

definition bytes_string :: "bytes \<Rightarrow> string" where
  "bytes_string bs = map (\<lambda>b. char_of (unat b)) bs"

definition serialize_chunk :: "chunk \<Rightarrow> bytes" where
  "serialize_chunk c =
     le_bytes 8 (original_size c) @ le_bytes 8 (index c) @ [if is_encrypted c then 1 else 0]
     @ le_bytes 4 (length (iv c)) @ iv c
     @ le_bytes 4 (length (tag c)) @ tag c
     @ le_bytes 4 (length (data c)) @ data c"

definition persist_chunk ::
  "'db externals \<Rightarrow> string \<Rightarrow> chunk \<Rightarrow> 'db chunk_store \<Rightarrow> bool \<times> 'db chunk_store" where
  "persist_chunk X h c st =
     (case db_put X (''chunk:'' @ h) (serialize_chunk c) (db st) of
        (db', ok) \<Rightarrow> (ok, st\<lparr>db := db'\<rparr>))"

text \<open>
  \<^verbatim>\<open>load_chunk\<close> reads the record at increasing offsets with no check against the length
  of the value; a read past the end is \<open>None\<close> here.
\<close>

definition read_bytes :: "bytes \<Rightarrow> nat \<Rightarrow> nat \<Rightarrow> bytes option" where
  "read_bytes v off n = (if off + n \<le> length v then Some (take n (drop off v)) else None)"

definition read_le :: "bytes \<Rightarrow> nat \<Rightarrow> nat \<Rightarrow> nat option" where
  "read_le v off n = map_option le_nat (read_bytes v off n)"

definition parse_chunk :: "string \<Rightarrow> bytes \<Rightarrow> chunk option" where
  "parse_chunk h v =
     Option.bind (read_le v 0 8) (\<lambda>size_orig.
     Option.bind (read_le v 8 8) (\<lambda>idx.
     Option.bind (read_le v 16 1) (\<lambda>enc.
     Option.bind (read_le v 17 4) (\<lambda>iv_len.
     Option.bind (read_bytes v 21 iv_len) (\<lambda>iv_bytes.
     Option.bind (read_le v (21 + iv_len) 4) (\<lambda>tag_len.
     Option.bind (read_bytes v (25 + iv_len) tag_len) (\<lambda>tag_bytes.
     Option.bind (read_le v (25 + iv_len + tag_len) 4) (\<lambda>data_len.
     Option.bind (read_bytes v (29 + iv_len + tag_len) data_len) (\<lambda>data_bytes.
       Some \<lparr>hash = h, data = data_bytes, iv = iv_bytes, tag = tag_bytes,
             original_size = size_orig, index = idx, is_encrypted = (enc \<noteq> 0)\<rparr>)))))))))"

text \<open>The result is \<open>Inr None\<close> when \<^verbatim>\<open>load_chunk\<close> returns false.\<close>

definition load_chunk ::
  "'db externals \<Rightarrow> string \<Rightarrow> 'db chunk_store \<Rightarrow> store_error + chunk option" where
  "load_chunk X h st =
     (case db_get X (''chunk:'' @ h) (db st) of
        None \<Rightarrow> Inr None
      | Some v \<Rightarrow>
          (case parse_chunk h v of
             None \<Rightarrow> Inl Undefined_Behaviour
           | Some c \<Rightarrow> Inr (Some c)))"

definition get_chunk :: "'db chunk_store \<Rightarrow> string \<Rightarrow> chunk option" where
  "get_chunk st h = chunks st h"

definition store_chunk ::
  "'db externals \<Rightarrow> string \<Rightarrow> chunk \<Rightarrow> 'db chunk_store \<Rightarrow> 'db chunk_store" where
  "store_chunk X h c st = snd (persist_chunk X h c (st\<lparr>chunks := (chunks st)(h \<mapsto> c)\<rparr>))"

text \<open>
  \<^verbatim>\<open>while (std::getline(ss, hash, ';')) if (!hash.empty()) ...\<close>: the tokens between
  semicolons, without the empty ones. \<open>cur\<close> is the token being read.
\<close>

fun getline_tokens :: "string \<Rightarrow> string \<Rightarrow> string list" where
  "getline_tokens [] cur = (if cur = [] then [] else [cur])"
| "getline_tokens (c # cs) cur =
     (if c = CHR '';'' then (if cur = [] then [] else [cur]) @ getline_tokens cs []
      else getline_tokens cs (cur @ [c]))"

definition parse_mapping :: "bytes \<Rightarrow> string list" where
  "parse_mapping v = getline_tokens (bytes_string v) []"

definition mapping_value :: "string list \<Rightarrow> bytes" where
  "mapping_value hs = string_bytes (concat (map (\<lambda>h. h @ '';'') hs))"

subsection \<open>store\<close>

text \<open>
  One iteration of the loop of \<^verbatim>\<open>store\<close> up to the hash: chunk_slice, compress, fill in the
  chunk, encrypt. \<^verbatim>\<open>offset / chunk_size_\<close> is a division by zero when the chunk size
  is 0.
\<close>

definition make_chunk ::
  "'db externals \<Rightarrow> nat \<Rightarrow> bytes \<Rightarrow> bool \<Rightarrow> bytes \<Rightarrow> nat \<Rightarrow> 'db chunk_store
     \<Rightarrow> (store_error + chunk) \<times> 'db chunk_store" where
  "make_chunk X k payload encrypt key offset st =
     (let chunk_len = min k (length payload - offset);
          chunk_data = take chunk_len (drop offset payload)
      in case compress X chunk_data of
           Inl e \<Rightarrow> (Inl e, st)
         | Inr compressed \<Rightarrow>
             if k = 0 then (Inl Undefined_Behaviour, st)
             else
               (let c = \<lparr>hash = [], data = [], iv = [], tag = [], original_size = chunk_len,
                         index = offset div k, is_encrypted = encrypt\<rparr>
                in if encrypt then
                     (case aes_gcm_encrypt X compressed key st of
                        (Inl e, st') \<Rightarrow> (Inl e, st')
                      | (Inr (ciphertext, new_iv, new_tag), st') \<Rightarrow>
                          (Inr (c\<lparr>data := ciphertext, iv := new_iv, tag := new_tag,
                                  hash := compute_hash X ciphertext\<rparr>), st'))
                   else (Inr (c\<lparr>data := compressed, hash := compute_hash X compressed\<rparr>), st)))"

text \<open>
  The loop of \<^verbatim>\<open>store\<close>. The chunk size \<^verbatim>\<open>chunk_size_\<close> is a member that nothing changes;
  it is passed as \<open>k\<close>. The loop goes round again only after \<open>make_chunk\<close> has divided
  by \<open>k\<close>, so \<open>offset\<close> grows.
\<close>

function store_loop ::
  "'db externals \<Rightarrow> nat \<Rightarrow> bytes \<Rightarrow> bool \<Rightarrow> bytes \<Rightarrow> nat \<Rightarrow> string list \<Rightarrow> 'db chunk_store
     \<Rightarrow> (store_error + string list) \<times> 'db chunk_store" where
  "store_loop X k payload encrypt key offset chunk_hashes st =
     (if offset < length payload then
        (case make_chunk X k payload encrypt key offset st of
           (Inl e, st') \<Rightarrow> (Inl e, st')
         | (Inr c, st') \<Rightarrow>
             store_loop X k payload encrypt key (offset + k) (chunk_hashes @ [hash c])
               (snd (persist_chunk X (hash c) c (st'\<lparr>chunks := (chunks st')(hash c \<mapsto> c)\<rparr>))))
      else (Inr chunk_hashes, st))"
  by pat_completeness auto
termination
  apply (relation "measure (\<lambda>(X, k, payload, encrypt, key, offset, hs, st). length payload - offset)")
   apply simp
  apply (auto simp: make_chunk_def Let_def split: sum.splits if_splits prod.splits)
  done

declare store_loop.simps [simp del]

definition store ::
  "'db externals \<Rightarrow> bytes \<Rightarrow> string \<Rightarrow> bool \<Rightarrow> 'db chunk_store
     \<Rightarrow> (store_error + string list) \<times> 'db chunk_store" where
  "store X payload content_id encrypt st =
     (case generate_random 32 st of
        (Inl e, st1) \<Rightarrow> (Inl e, st1)
      | (Inr salt, st1) \<Rightarrow>
          (case derive_key X content_id salt of
             Inl e \<Rightarrow> (Inl e, st1)
           | Inr key \<Rightarrow>
               (case store_loop X (chunk_size st1) payload encrypt key 0 [] st1 of
                  (Inl e, st2) \<Rightarrow> (Inl e, st2)
                | (Inr chunk_hashes, st2) \<Rightarrow>
                    (Inr chunk_hashes,
                     st2\<lparr>content_map := (content_map st2)(content_id \<mapsto> chunk_hashes),
                         db := fst (db_put X (''content_map:'' @ content_id)
                                     (mapping_value chunk_hashes) (db st2))\<rparr>))))"

subsection \<open>retrieve\<close>

text \<open>The hash list of a content: from memory, else from the database (and cached).\<close>

definition resolve_hashes ::
  "'db externals \<Rightarrow> string \<Rightarrow> 'db chunk_store \<Rightarrow> (store_error + string list) \<times> 'db chunk_store"
where
  "resolve_hashes X content_id st =
     (case content_map st content_id of
        Some hs \<Rightarrow> (Inr hs, st)
      | None \<Rightarrow>
          (case db_get X (''content_map:'' @ content_id) (db st) of
             None \<Rightarrow> (Inl Content_Not_Found, st)
           | Some v \<Rightarrow>
               (Inr (parse_mapping v),
                st\<lparr>content_map := (content_map st)(content_id \<mapsto> parse_mapping v)\<rparr>)))"

text \<open>The chunk of a hash: from memory, else from the database (and cached).\<close>

definition fetch_chunk ::
  "'db externals \<Rightarrow> string \<Rightarrow> 'db chunk_store \<Rightarrow> (store_error + chunk) \<times> 'db chunk_store" where
  "fetch_chunk X h st =
     (case get_chunk st h of
        Some c \<Rightarrow> (Inr c, st)
      | None \<Rightarrow>
          (case load_chunk X h st of
             Inl e \<Rightarrow> (Inl e, st)
           | Inr None \<Rightarrow> (Inl Chunk_Not_Found, st)
           | Inr (Some c) \<Rightarrow> (Inr c, st\<lparr>chunks := (chunks st)(h \<mapsto> c)\<rparr>)))"

fun retrieve_loop ::
  "'db externals \<Rightarrow> bytes \<Rightarrow> string list \<Rightarrow> bytes \<Rightarrow> 'db chunk_store
     \<Rightarrow> (store_error + bytes) \<times> 'db chunk_store" where
  "retrieve_loop X key [] result st = (Inr result, st)"
| "retrieve_loop X key (h # hs) result st =
     (case fetch_chunk X h st of
        (Inl e, st') \<Rightarrow> (Inl e, st')
      | (Inr c, st') \<Rightarrow>
          (case (if is_encrypted c then aes_gcm_decrypt X (data c) key (iv c) (tag c)
                 else Inr (data c)) of
             Inl e \<Rightarrow> (Inl e, st')
           | Inr chunk_data \<Rightarrow>
               (case decompress X chunk_data (original_size c) of
                  Inl e \<Rightarrow> (Inl e, st')
                | Inr decompressed \<Rightarrow> retrieve_loop X key hs (result @ decompressed) st')))"

definition retrieve ::
  "'db externals \<Rightarrow> string \<Rightarrow> 'db chunk_store \<Rightarrow> (store_error + bytes) \<times> 'db chunk_store" where
  "retrieve X content_id st =
     (case resolve_hashes X content_id st of
        (Inl e, st1) \<Rightarrow> (Inl e, st1)
      | (Inr hs, st1) \<Rightarrow>
          (case generate_random 32 st1 of
             (Inl e, st2) \<Rightarrow> (Inl e, st2)
           | (Inr salt, st2) \<Rightarrow>
               (case derive_key X content_id salt of
                  Inl e \<Rightarrow> (Inl e, st2)
                | Inr key \<Rightarrow> retrieve_loop X key hs [] st2)))"

definition list_chunks :: "'db chunk_store \<Rightarrow> string \<Rightarrow> string list" where
  "list_chunks st content_id = (case content_map st content_id of None \<Rightarrow> [] | Some hs \<Rightarrow> hs)"

definition get_content_address :: "'db externals \<Rightarrow> 'db chunk_store \<Rightarrow> string \<Rightarrow> string" where
  "get_content_address X st content_id =
     (case content_map st content_id of
        None \<Rightarrow> []
      | Some hs \<Rightarrow> compute_hash X (string_bytes (concat hs)))"

subsection \<open>The chunks of a payload\<close>

text \<open>The offsets at which the loop of \<^verbatim>\<open>store\<close> cuts a payload of length \<open>n\<close>.\<close>

function offsets :: "nat \<Rightarrow> nat \<Rightarrow> nat \<Rightarrow> nat list" where
  "offsets k n offset = (if offset < n \<and> 0 < k then offset # offsets k n (offset + k) else [])"
  by pat_completeness auto
termination
  by (relation "measure (\<lambda>(k, n, offset). n - offset)") auto

declare offsets.simps [simp del]

definition chunk_slice :: "nat \<Rightarrow> bytes \<Rightarrow> nat \<Rightarrow> bytes" where
  "chunk_slice k payload offset = take (min k (length payload - offset)) (drop offset payload)"

definition payload_slices :: "nat \<Rightarrow> bytes \<Rightarrow> bytes list" where
  "payload_slices k payload = map (chunk_slice k payload) (offsets k (length payload) 0)"

text \<open>
  \<open>made X k payload encrypt key offset c\<close>: the chunk \<open>c\<close> is what one iteration of the
  loop makes of the chunk_slice at \<open>offset\<close>.
\<close>

definition made ::
  "'db externals \<Rightarrow> nat \<Rightarrow> bytes \<Rightarrow> bool \<Rightarrow> bytes \<Rightarrow> nat \<Rightarrow> chunk \<Rightarrow> bool" where
  "made X k payload encrypt key offset c \<longleftrightarrow>
     original_size c = min k (length payload - offset) \<and> index c = offset div k
     \<and> is_encrypted c = encrypt \<and> hash c = compute_hash X (data c)
     \<and> (\<exists>compressed. zstd_compress X (chunk_slice k payload offset) = Some compressed
           \<and> (if encrypt then gcm_encrypt X key (iv c) compressed = Some (data c, tag c)
               else data c = compressed))"

text \<open>Assumptions on the libraries, each used by name where a result depends on it.\<close>

definition zstd_inverse :: "'db externals \<Rightarrow> bool" where
  "zstd_inverse X \<longleftrightarrow>
     (\<forall>x c. zstd_compress X x = Some c \<longrightarrow> zstd_decompress X c (length x) = Some x)"

definition no_collision :: "'db externals \<Rightarrow> nat \<Rightarrow> bytes \<Rightarrow> bool" where
  "no_collision X k payload \<longleftrightarrow>
     (\<forall>x \<in> set (payload_slices k payload). \<forall>y \<in> set (payload_slices k payload).
        \<forall>cx cy. zstd_compress X x = Some cx \<and> zstd_compress X y = Some cy
                 \<and> compute_hash X cx = compute_hash X cy \<longrightarrow> x = y)"

definition gcm_authentic :: "'db externals \<Rightarrow> bool" where
  "gcm_authentic X \<longleftrightarrow>
     (\<forall>k k' v p c t. gcm_encrypt X k v p = Some (c, t) \<and> k' \<noteq> k
        \<longrightarrow> gcm_decrypt X k' v c t = None)"

text \<open>Inserting a chunk into the in-memory table, as \<^verbatim>\<open>chunks_[chunk->hash] = chunk\<close> does.\<close>

definition ins :: "chunk \<Rightarrow> (string \<rightharpoonup> chunk) \<Rightarrow> (string \<rightharpoonup> chunk)" where
  "ins c m = m(hash c \<mapsto> c)"

text \<open>
  The key/value store behaves as a map: a \<^verbatim>\<open>Get\<close> returns what the last \<^verbatim>\<open>Put\<close> under
  the key wrote, and a \<^verbatim>\<open>Put\<close> leaves the other keys alone.
\<close>

definition db_map :: "'db externals \<Rightarrow> bool" where
  "db_map X \<longleftrightarrow>
     (\<forall>k v d. db_get X k (fst (db_put X k v d)) = Some v)
     \<and> (\<forall>k k' v d. k' \<noteq> k \<longrightarrow> db_get X k' (fst (db_put X k v d)) = db_get X k' d)"

text \<open>
  The sizes that the record of a chunk can hold: the payload length fits \<^verbatim>\<open>size_t\<close> and
  the compressed chunks fit the \<^verbatim>\<open>uint32_t\<close> length prefix.
\<close>

definition record_sizes :: "'db externals \<Rightarrow> nat \<Rightarrow> bytes \<Rightarrow> bool" where
  "record_sizes X k payload \<longleftrightarrow>
     length payload < 2 ^ 64
     \<and> (\<forall>x \<in> set (payload_slices k payload). \<forall>c. zstd_compress X x = Some c \<longrightarrow> length c < 2 ^ 32)"

text \<open>
  A store constructed anew on the database that \<open>st\<close> wrote: \<^verbatim>\<open>chunks_\<close> and
  \<^verbatim>\<open>content_map_\<close> are empty, the chunk size and the random source are those of the
  new process.
\<close>

definition reopen :: "nat \<Rightarrow> bytes \<Rightarrow> 'db chunk_store \<Rightarrow> 'db chunk_store" where
  "reopen k r st = \<lparr>chunk_size = k, chunks = Map.empty, content_map = Map.empty, db = db st, rng = r\<rparr>"

text \<open>What \<^verbatim>\<open>persist_chunk\<close> does to the database.\<close>

definition put_chunk :: "'db externals \<Rightarrow> chunk \<Rightarrow> 'db \<Rightarrow> 'db" where
  "put_chunk X c d = fst (db_put X (''chunk:'' @ hash c) (serialize_chunk c) d)"

subsection \<open>A small instance\<close>

text \<open>
  An instance of the libraries on which the model can be run: the digest of a byte
  string is the string itself, compression prefixes a marker byte, the derived key is
  the salt, the ciphertext is the plaintext with the tag \<open>key @ iv\<close>, and the
  database is a map. It satisfies \<open>zstd_inverse\<close> and \<open>gcm_authentic\<close>.
\<close>

definition sample_externals :: "(string \<rightharpoonup> bytes) externals" where
  "sample_externals =
     \<lparr>sha256 = (\<lambda>bs. bs),
      zstd_compress = (\<lambda>bs. Some (7 # bs)),
      zstd_decompress = (\<lambda>bs n. case bs of [] \<Rightarrow> None
                                 | b # out \<Rightarrow> if b = 7 \<and> length out \<le> n then Some out else None),
      pbkdf2 = (\<lambda>content_id salt. Some salt),
      gcm_encrypt = (\<lambda>k v p. Some (p, k @ v)),
      gcm_decrypt = (\<lambda>k v c t. if t = k @ v then Some c else None),
      db_put = (\<lambda>k v d. (d(k \<mapsto> v), True)),
      db_get = (\<lambda>k d. d k)\<rparr>"

text \<open>
  A fresh store with chunk size 2 whose random source delivers 32 bytes \<open>1\<close>, then 24
  bytes \<open>2\<close>, then 32 bytes \<open>3\<close>.
\<close>

definition sample_store :: "(string \<rightharpoonup> bytes) chunk_store" where
  "sample_store =
     \<lparr>chunk_size = 2, chunks = Map.empty, content_map = Map.empty, db = Map.empty,
      rng = replicate 32 1 @ replicate 24 2 @ replicate 32 3\<rparr>"


section \<open>Routing (Routing.cpp)\<close>

subsection \<open>Binary32 arithmetic\<close>

text \<open>
  A \<^verbatim>\<open>float\<close> is a finite value, one of the two infinities, or NaN. The two zeros are
  one value: the routing code never divides and never looks at a sign, so nothing tells
  them apart. An operation computes the exact result and rounds it to the nearest
  binary32 value, ties to the even significand, as IEEE 754 prescribes; every operation
  of an expression is rounded by itself (\<^verbatim>\<open>FLT_EVAL_METHOD\<close> 0, no contraction).
\<close>

datatype float32 = Finite real | PInfinity | NInfinity | NaN

text \<open>
  The order of \<^verbatim>\<open>operator<\<close> on the values that are not NaN. NaN compares false with
  everything; it is placed last here only to make the order total, and the comparisons
  of the code, \<open>flt\<close> below, do not use that.
\<close>

fun float_key :: "float32 \<Rightarrow> nat \<times> real" where
  "float_key NInfinity = (0, 0)"
| "float_key (Finite x) = (1, x)"
| "float_key PInfinity = (2, 0)"
| "float_key NaN = (3, 0)"

instantiation float32 :: linorder
begin

definition less_eq_float32 :: "float32 \<Rightarrow> float32 \<Rightarrow> bool" where
  "less_eq_float32 a b \<longleftrightarrow> float_key a \<le> float_key b"

definition less_float32 :: "float32 \<Rightarrow> float32 \<Rightarrow> bool" where
  "less_float32 a b \<longleftrightarrow> float_key a < float_key b"

instance
proof
  fix a b c :: float32
  show "(a < b) = (a \<le> b \<and> \<not> b \<le> a)"
    unfolding less_eq_float32_def less_float32_def by auto
  show "a \<le> a" unfolding less_eq_float32_def by simp
  show "a \<le> b \<Longrightarrow> b \<le> c \<Longrightarrow> a \<le> c" unfolding less_eq_float32_def by (rule order_trans)
  show "a \<le> b \<Longrightarrow> b \<le> a \<Longrightarrow> a = b"
    unfolding less_eq_float32_def by (cases a; cases b) auto
  show "a \<le> b \<or> b \<le> a" unfolding less_eq_float32_def by (rule linear)
qed

end

text \<open>\<open>ilog2 n\<close> is the position of the leading bit of \<open>n\<close>.\<close>

function ilog2 :: "int \<Rightarrow> int" where
  "ilog2 n = (if n < 2 then 0 else ilog2 (n div 2) + 1)"
  by pat_completeness auto
termination
  by (relation "measure nat") auto

declare ilog2.simps [simp del]

text \<open>The exponent \<open>e\<close> of a real \<open>x\<close> other than zero: \<open>2\<^sup>e \<le> |x| < 2\<^sup>e\<^sup>+\<^sup>1\<close>.\<close>

definition expo :: "real \<Rightarrow> int" where
  "expo x = (if 1 \<le> \<bar>x\<bar> then ilog2 \<lfloor>\<bar>x\<bar>\<rfloor>
             else - ilog2 (\<lceil>1 / \<bar>x\<bar>\<rceil> - 1) - 1)"

text \<open>
  Below the smallest normal number, \<open>2\<^sup>-\<^sup>1\<^sup>2\<^sup>6\<close>, the exponent of the representation stays
  \<open>-126\<close>. The significand has 24 bits, so the binary32 values around \<open>x\<close> are the
  multiples of \<open>ulp x\<close>.
\<close>

definition bexp :: "real \<Rightarrow> int" where
  "bexp x = max (expo x) (- 126)"

definition ulp :: "real \<Rightarrow> real" where
  "ulp x = 2 powi (bexp x - 23)"

text \<open>The nearest integer, the even one of two that are equally near.\<close>

definition rne :: "real \<Rightarrow> int" where
  "rne y = (let f = \<lfloor>y\<rfloor>; d = y - of_int f
            in if d < 1 / 2 then f else if 1 / 2 < d then f + 1
               else if even f then f else f + 1)"

definition nearest :: "real \<Rightarrow> real" where
  "nearest x = of_int (rne (x / ulp x)) * ulp x"

text \<open>
  Rounding an exact result. The largest binary32 value is \<open>2\<^sup>1\<^sup>2\<^sup>8 - 2\<^sup>1\<^sup>0\<^sup>4\<close>; a result that
  rounds to \<open>2\<^sup>1\<^sup>2\<^sup>8\<close> or beyond overflows to the infinity of its sign.
\<close>

definition round32 :: "real \<Rightarrow> float32" where
  "round32 x =
     (let r = nearest x
      in if 2 ^ 128 \<le> r then PInfinity else if r \<le> - (2 ^ 128) then NInfinity else Finite r)"

fun fneg :: "float32 \<Rightarrow> float32" where
  "fneg (Finite x) = Finite (- x)"
| "fneg PInfinity = NInfinity"
| "fneg NInfinity = PInfinity"
| "fneg NaN = NaN"

fun fadd :: "float32 \<Rightarrow> float32 \<Rightarrow> float32" where
  "fadd (Finite x) (Finite y) = round32 (x + y)"
| "fadd NaN b = NaN"
| "fadd a NaN = NaN"
| "fadd (Finite x) b = b"
| "fadd a (Finite y) = a"
| "fadd a b = (if a = b then a else NaN)"

definition fsub :: "float32 \<Rightarrow> float32 \<Rightarrow> float32" where
  "fsub a b = fadd a (fneg b)"

fun fmul :: "float32 \<Rightarrow> float32 \<Rightarrow> float32" where
  "fmul (Finite x) (Finite y) = round32 (x * y)"
| "fmul NaN b = NaN"
| "fmul a NaN = NaN"
| "fmul (Finite x) b = (if x = 0 then NaN else if 0 < x then b else fneg b)"
| "fmul a (Finite y) = (if y = 0 then NaN else if 0 < y then a else fneg a)"
| "fmul a b = (if a = b then PInfinity else NInfinity)"

text \<open>\<^verbatim>\<open>a < b\<close> on floats, and \<^verbatim>\<open>std::min(a, b)\<close>, which is \<^verbatim>\<open>(b < a) ? b : a\<close>.\<close>

definition flt :: "float32 \<Rightarrow> float32 \<Rightarrow> bool" where
  "flt a b \<longleftrightarrow> a \<noteq> NaN \<and> b \<noteq> NaN \<and> a < b"

definition fmin :: "float32 \<Rightarrow> float32 \<Rightarrow> float32" where
  "fmin a b = (if flt b a then b else a)"

subsection \<open>The graph\<close>

record link =
  from_device :: string
  to_device :: string
  quality :: float32
  latency_ms :: float32
  bandwidth_mbps :: float32

definition link_default :: link where
  "link_default =
     \<lparr>from_device = [], to_device = [], quality = Finite 1, latency_ms = Finite 10,
      bandwidth_mbps = Finite 100\<rparr>"

record route =
  path :: "string list"
  total_latency_ms :: float32
  min_bandwidth_mbps :: float32
  quality_score :: float32

definition route_default :: route where
  "route_default =
     \<lparr>path = [], total_latency_ms = Finite 0, min_bandwidth_mbps = Finite 0,
      quality_score = Finite 0\<rparr>"

text \<open>
  \<^verbatim>\<open>graph_\<close> maps a device to the map of its neighbours. The inner \<^verbatim>\<open>unordered_map\<close> is
  iterated by the search, so it is an association list, which fixes one iteration order.
\<close>

type_synonym graph = "string \<rightharpoonup> (string \<times> link) list"

record routing =
  graph :: graph
  chunk_locations :: "string \<rightharpoonup> string list"

definition routing_init :: routing where
  "routing_init = \<lparr>graph = Map.empty, chunk_locations = Map.empty\<rparr>"

definition nbrs_of :: "graph \<Rightarrow> string \<Rightarrow> (string \<times> link) list" where
  "nbrs_of g u = (case g u of None \<Rightarrow> [] | Some ns \<Rightarrow> ns)"

text \<open>\<^verbatim>\<open>graph_[a][b] = l\<close>\<close>

definition set_link :: "string \<Rightarrow> string \<Rightarrow> link \<Rightarrow> graph \<Rightarrow> graph" where
  "set_link a b l g = g(a \<mapsto> AList.update b l (nbrs_of g a))"

definition add_link :: "string \<Rightarrow> string \<Rightarrow> link \<Rightarrow> routing \<Rightarrow> routing" where
  "add_link a b l r =
     r\<lparr>graph := set_link b a (l\<lparr>from_device := b, to_device := a\<rparr>) (set_link a b l (graph r))\<rparr>"

definition set_quality :: "string \<Rightarrow> string \<Rightarrow> float32 \<Rightarrow> graph \<Rightarrow> graph" where
  "set_quality a b q g =
     (case g a of
        None \<Rightarrow> g
      | Some ns \<Rightarrow>
          (case map_of ns b of
             None \<Rightarrow> g
           | Some l \<Rightarrow> g(a \<mapsto> AList.update b (l\<lparr>quality := q\<rparr>) ns)))"

definition update_link :: "string \<Rightarrow> string \<Rightarrow> float32 \<Rightarrow> routing \<Rightarrow> routing" where
  "update_link a b q r = r\<lparr>graph := set_quality b a q (set_quality a b q (graph r))\<rparr>"

definition erase_link :: "string \<Rightarrow> string \<Rightarrow> graph \<Rightarrow> graph" where
  "erase_link a b g = (case g a of None \<Rightarrow> g | Some ns \<Rightarrow> g(a \<mapsto> AList.delete b ns))"

definition remove_link :: "string \<Rightarrow> string \<Rightarrow> routing \<Rightarrow> routing" where
  "remove_link a b r = r\<lparr>graph := erase_link b a (erase_link a b (graph r))\<rparr>"

definition get_neighbors :: "routing \<Rightarrow> string \<Rightarrow> string list" where
  "get_neighbors r d = map fst (nbrs_of (graph r) d)"

definition register_chunk_location :: "string \<Rightarrow> string list \<Rightarrow> routing \<Rightarrow> routing" where
  "register_chunk_location h ds r = r\<lparr>chunk_locations := (chunk_locations r)(h \<mapsto> ds)\<rparr>"

definition resolve_chunk_locations :: "routing \<Rightarrow> string \<Rightarrow> string list" where
  "resolve_chunk_locations r h = (case chunk_locations r h of None \<Rightarrow> [] | Some ds \<Rightarrow> ds)"

subsection \<open>The search\<close>

text \<open>
  The state of the search. \<open>cost n\<close> is the value that \<^verbatim>\<open>cost[n]\<close> reads: a key that is
  not in the map reads as \<open>0\<close>, the value \<^verbatim>\<open>operator[]\<close> inserts. \<open>pq\<close> holds the
  entries of the priority queue; \<^verbatim>\<open>top\<close> is the least pair, by cost and then by name.
  An entry is pushed only after its cost has compared less than another, so no entry
  holds NaN.
\<close>

record search =
  cost :: "string \<Rightarrow> float32"
  prev :: "string \<rightharpoonup> string"
  pq :: "(float32 \<times> string) list"

text \<open>\<^verbatim>\<open>link.latency_ms + (1.0f - link.quality) * 50.0f\<close>\<close>

definition edge_cost :: "link \<Rightarrow> float32" where
  "edge_cost l = fadd (latency_ms l) (fmul (fsub (Finite 1) (quality l)) (Finite 50))"

definition search_init :: "graph \<Rightarrow> string \<Rightarrow> search" where
  "search_init g source =
     \<lparr>cost = (\<lambda>n. if g n \<noteq> None then PInfinity else Finite 0)(source := Finite 0),
      prev = Map.empty,
      pq = [(Finite 0, source)]\<rparr>"

text \<open>The body of the loop over the neighbours of \<open>u\<close>.\<close>

definition relax_edge :: "string \<Rightarrow> string \<times> link \<Rightarrow> search \<Rightarrow> search" where
  "relax_edge u e s =
     (let new_cost = fadd (cost s u) (edge_cost (snd e))
      in if flt new_cost (cost s (fst e))
         then s\<lparr>cost := (cost s)(fst e := new_cost),
                prev := (prev s)(fst e \<mapsto> u),
                pq := pq s @ [(new_cost, fst e)]\<rparr>
         else s)"

text \<open>
  The body of the main loop after the test for the destination:
  \<^verbatim>\<open>if (curr_cost > cost[u]) continue;\<close> and the loop over the neighbours.
\<close>

definition visit :: "graph \<Rightarrow> float32 \<times> string \<Rightarrow> search \<Rightarrow> search" where
  "visit g qtop s =
     (if flt (cost s (snd qtop)) (fst qtop) then s
      else case g (snd qtop) of
             None \<Rightarrow> s
           | Some ns \<Rightarrow> fold (relax_edge (snd qtop)) ns s)"

partial_function (option) dijkstra_loop :: "graph \<Rightarrow> string \<Rightarrow> search \<Rightarrow> search option" where
  "dijkstra_loop g dest s =
     (if pq s = [] then Some s
      else
        (let qtop = Min (set (pq s)); s' = s\<lparr>pq := remove1 qtop (pq s)\<rparr>
         in if snd qtop = dest then Some s'
            else dijkstra_loop g dest (visit g qtop s')))"

text \<open>\<^verbatim>\<open>prev[current]\<close> reads the empty string for a key that is not in the map.\<close>

definition prev_at :: "(string \<rightharpoonup> string) \<Rightarrow> string \<Rightarrow> string" where
  "prev_at p n = (case p n of None \<Rightarrow> [] | Some m \<Rightarrow> m)"

partial_function (option) reconstruct ::
  "(string \<rightharpoonup> string) \<Rightarrow> string \<Rightarrow> string \<Rightarrow> string list \<Rightarrow> string list option" where
  "reconstruct p source current acc =
     (if current = [] then Some acc
      else if current = source then Some (current # acc)
      else reconstruct p source (prev_at p current) (current # acc))"

text \<open>
  \<^verbatim>\<open>graph_[a][b]\<close> in the computation of the metrics: a link that is not in the graph is
  inserted with the default values.
\<close>

definition link_at :: "graph \<Rightarrow> string \<Rightarrow> string \<Rightarrow> link" where
  "link_at g a b = (case map_of (nbrs_of g a) b of None \<Rightarrow> link_default | Some l \<Rightarrow> l)"

definition touch_link :: "string \<Rightarrow> string \<Rightarrow> graph \<Rightarrow> graph" where
  "touch_link a b g =
     (case map_of (nbrs_of g a) b of
        None \<Rightarrow> g(a \<mapsto> nbrs_of g a @ [(b, link_default)])
      | Some l \<Rightarrow> g)"

fun metrics :: "string list \<Rightarrow> route \<times> graph \<Rightarrow> route \<times> graph" where
  "metrics (a # b # rest) (r, g) =
     metrics (b # rest)
       (r\<lparr>total_latency_ms := fadd (total_latency_ms r) (latency_ms (link_at g a b)),
          min_bandwidth_mbps := fmin (min_bandwidth_mbps r) (bandwidth_mbps (link_at g a b)),
          quality_score := fmul (quality_score r) (quality (link_at g a b))\<rparr>,
        touch_link a b g)"
| "metrics rest (r, g) = (r, g)"

text \<open>
  \<^verbatim>\<open>result.path.size() - 1\<close> wraps around for an empty path and the loop then reads
  \<^verbatim>\<open>result.path[0]\<close>.
\<close>

datatype route_error = Out_Of_Bounds

text \<open>\<open>None\<close>: the search or the walk back along \<^verbatim>\<open>prev\<close> does not end.\<close>

definition dijkstra :: "graph \<Rightarrow> string \<Rightarrow> string \<Rightarrow> (route_error + route \<times> graph) option" where
  "dijkstra g source dest =
     (case dijkstra_loop g dest (search_init g source) of
        None \<Rightarrow> None
      | Some s \<Rightarrow>
          if prev s dest \<noteq> None \<or> dest = source then
            (case reconstruct (prev s) source dest [] of
               None \<Rightarrow> None
             | Some p \<Rightarrow>
                 if p = [] then Some (Inl Out_Of_Bounds)
                 else Some (Inr (metrics p
                        (route_default\<lparr>path := p, total_latency_ms := Finite 0,
                            min_bandwidth_mbps := PInfinity, quality_score := Finite 1\<rparr>, g))))
          else Some (Inr (route_default, g)))"

definition find_route :: "routing \<Rightarrow> string \<Rightarrow> string \<Rightarrow> (route_error + route \<times> routing) option" where
  "find_route r source dest =
     (case dijkstra (graph r) source dest of
        None \<Rightarrow> None
      | Some (Inl e) \<Rightarrow> Some (Inl e)
      | Some (Inr (rt, g)) \<Rightarrow> Some (Inr (rt, r\<lparr>graph := g\<rparr>)))"

declare dijkstra_loop.simps [code]
declare reconstruct.simps [code]

subsection \<open>Paths and their cost\<close>

fun path_ok :: "graph \<Rightarrow> string list \<Rightarrow> bool" where
  "path_ok g [] = False"
| "path_ok g [a] = True"
| "path_ok g (a # b # rest) = (map_of (nbrs_of g a) b \<noteq> None \<and> path_ok g (b # rest))"

definition is_route :: "graph \<Rightarrow> string \<Rightarrow> string \<Rightarrow> string list \<Rightarrow> bool" where
  "is_route g source dest p \<longleftrightarrow> path_ok g p \<and> hd p = source \<and> last p = dest"

text \<open>
  The cost of a path as the search adds it up: from the source on, the cost of each
  edge added in binary32 to what has been added so far.
\<close>

fun route_cost :: "graph \<Rightarrow> float32 \<Rightarrow> string list \<Rightarrow> float32" where
  "route_cost g acc (a # b # rest) = route_cost g (fadd acc (edge_cost (link_at g a b))) (b # rest)"
| "route_cost g acc rest = acc"

text \<open>
  The total cost of a path in exact arithmetic: the sum of
  \<open>latency_ms + 50 * (1 - quality)\<close> over its edges.
\<close>

fun real_of_float :: "float32 \<Rightarrow> real" where
  "real_of_float (Finite x) = x"
| "real_of_float a = 0"

fun exact_cost :: "graph \<Rightarrow> string list \<Rightarrow> real" where
  "exact_cost g (a # b # rest) =
     real_of_float (latency_ms (link_at g a b))
     + 50 * (1 - real_of_float (quality (link_at g a b))) + exact_cost g (b # rest)"
| "exact_cost g rest = 0"

text \<open>
  A graph as \<^verbatim>\<open>add_link\<close>, \<^verbatim>\<open>update_link\<close> and \<^verbatim>\<open>remove_link\<close> leave it: finitely many
  devices, each neighbour is itself a device of the graph, and a device has one link
  per neighbour.
\<close>

definition graph_ok :: "graph \<Rightarrow> bool" where
  "graph_ok g \<longleftrightarrow>
     finite (dom g)
     \<and> (\<forall>u ns. g u = Some ns \<longrightarrow> distinct (map fst ns) \<and> fst ` set ns \<subseteq> dom g)"

text \<open>The cost of every link is a finite float that is not negative.\<close>

definition costs_ok :: "graph \<Rightarrow> bool" where
  "costs_ok g \<longleftrightarrow>
     (\<forall>u ns. g u = Some ns \<longrightarrow>
        (\<forall>e \<in> set ns. Finite 0 \<le> edge_cost (snd e) \<and> edge_cost (snd e) < PInfinity))"

subsection \<open>The invariant of the search\<close>

text \<open>The values a cost can take: \<^verbatim>\<open>+infinity\<close> or a binary32 value that is not negative.\<close>

definition cost_value :: "float32 \<Rightarrow> bool" where
  "cost_value a \<longleftrightarrow> a = PInfinity \<or> (\<exists>c. 0 \<le> c \<and> a = Finite c \<and> round32 c = Finite c)"

definition nodes :: "graph \<Rightarrow> string \<Rightarrow> string set" where
  "nodes g src = insert src (dom g)"

text \<open>A node is settled when it has a finite cost and no queue entry at that cost.\<close>

definition settled :: "graph \<Rightarrow> string \<Rightarrow> search \<Rightarrow> string \<Rightarrow> bool" where
  "settled g src s x \<longleftrightarrow> x \<in> nodes g src \<and> cost s x \<noteq> PInfinity \<and> (cost s x, x) \<notin> set (pq s)"

text \<open>The edges \<open>es\<close> out of \<open>x\<close> have been relaxed.\<close>

definition relaxed :: "search \<Rightarrow> string \<Rightarrow> (string \<times> link) list \<Rightarrow> bool" where
  "relaxed s x es \<longleftrightarrow> (\<forall>e \<in> set es. cost s (fst e) \<le> fadd (cost s x) (edge_cost (snd e)))"

text \<open>Following \<^verbatim>\<open>prev\<close> from a node leads to the source.\<close>

inductive chain :: "(string \<rightharpoonup> string) \<Rightarrow> string \<Rightarrow> string \<Rightarrow> bool" for p src where
  chain_source: "chain p src src"
| chain_step: "p v = Some u \<Longrightarrow> v \<noteq> src \<Longrightarrow> chain p src u \<Longrightarrow> chain p src v"

definition core :: "graph \<Rightarrow> string \<Rightarrow> search \<Rightarrow> bool" where
  "core g src s \<longleftrightarrow>
     cost s src = Finite 0
     \<and> (\<forall>v. cost_value (cost s v))
     \<and> (\<forall>v u. prev s v = Some u \<longrightarrow>
           v \<noteq> src \<and> v \<in> dom g \<and> chain (prev s) src v
           \<and> (\<exists>l. map_of (nbrs_of g u) v = Some l \<and> cost s v \<noteq> PInfinity
                 \<and> fadd (cost s u) (edge_cost l) \<le> cost s v))
     \<and> (\<forall>v \<in> dom g. v \<noteq> src \<longrightarrow> prev s v = None \<longrightarrow> cost s v = PInfinity)
     \<and> (\<forall>e \<in> set (pq s). snd e \<in> nodes g src \<and> cost_value (fst e) \<and> fst e \<noteq> PInfinity
           \<and> cost s (snd e) \<le> fst e)
     \<and> distinct (pq s)"

text \<open>The invariant at the head of the main loop.\<close>

definition dinv :: "graph \<Rightarrow> string \<Rightarrow> string \<Rightarrow> search \<Rightarrow> bool" where
  "dinv g src dest s \<longleftrightarrow>
     core g src s
     \<and> (\<forall>x. settled g src s x \<longrightarrow> relaxed s x (nbrs_of g x))
     \<and> (\<forall>x e. settled g src s x \<and> e \<in> set (pq s) \<longrightarrow> cost s x \<le> fst e)
     \<and> \<not> settled g src s dest"

text \<open>The invariant while the edges of \<open>u\<close> are relaxed; \<open>es\<close> are those done.\<close>

definition mid :: "graph \<Rightarrow> string \<Rightarrow> string \<Rightarrow> string \<Rightarrow> (string \<times> link) list \<Rightarrow> search \<Rightarrow> bool"
where
  "mid g src dest u es s \<longleftrightarrow>
     core g src s
     \<and> settled g src s u
     \<and> (\<forall>x. settled g src s x \<and> x \<noteq> u \<longrightarrow> relaxed s x (nbrs_of g x))
     \<and> relaxed s u es
     \<and> (\<forall>x e. settled g src s x \<and> e \<in> set (pq s) \<longrightarrow> cost s x \<le> fst e)
     \<and> (\<forall>x. settled g src s x \<longrightarrow> cost s x \<le> cost s u)
     \<and> dest \<noteq> u \<and> \<not> settled g src s dest"

definition unsettled :: "graph \<Rightarrow> string \<Rightarrow> search \<Rightarrow> string set" where
  "unsettled g src s = {x \<in> nodes g src. \<not> settled g src s x}"

text \<open>What the search returns on leaving the loop.\<close>

definition final :: "graph \<Rightarrow> string \<Rightarrow> string \<Rightarrow> search \<Rightarrow> bool" where
  "final g src dest s \<longleftrightarrow>
     core g src s
     \<and> (\<forall>p. is_route g src dest p \<longrightarrow> cost s dest \<le> route_cost g (Finite 0) p)"

subsection \<open>Graphs built through the interface\<close>

definition lists_ok :: "graph \<Rightarrow> string set \<Rightarrow> bool" where
  "lists_ok g D \<longleftrightarrow> (\<forall>u ns. g u = Some ns \<longrightarrow> distinct (map fst ns) \<and> fst ` set ns \<subseteq> D)"

inductive built :: "routing \<Rightarrow> bool" where
  built_init: "built routing_init"
| built_add: "built r \<Longrightarrow> built (add_link a b l r)"
| built_update: "built r \<Longrightarrow> built (update_link a b q r)"
| built_remove: "built r \<Longrightarrow> built (remove_link a b r)"
| built_register: "built r \<Longrightarrow> built (register_chunk_location h ds r)"

text \<open>
  Three graphs: the triangle \<open>A - B - C - A\<close> of the routing scenario; a triangle
  whose costs need more than 24 bits; and a line \<open>A - d - C\<close> whose middle device \<open>d\<close>
  has the empty string as its name.
\<close>

definition mk_link :: "real \<Rightarrow> real \<Rightarrow> link" where
  "mk_link q lat = link_default\<lparr>quality := Finite q, latency_ms := Finite lat\<rparr>"

definition triangle :: routing where
  "triangle = add_link ''A'' ''C'' (mk_link (1/2) 15)
                (add_link ''B'' ''C'' (mk_link 1 10)
                  (add_link ''A'' ''B'' (mk_link 1 10) routing_init))"

definition wide_triangle :: routing where
  "wide_triangle = add_link ''A'' ''C'' (mk_link (63/64) (2 ^ 24))
                     (add_link ''B'' ''C'' (mk_link 1 (1/2))
                       (add_link ''A'' ''B'' (mk_link 1 (2 ^ 24)) routing_init))"

definition unnamed_hop :: routing where
  "unnamed_hop = add_link [] ''C'' (mk_link 1 10) (add_link ''A'' [] (mk_link 1 10) routing_init)"

section \<open>Properties of the ledger\<close>

subsection \<open>The binary search on a history sorted by timestamp\<close>

lemma lower_bound_loop_spec:
  assumes "first + len \<le> length xs"
    and "\<And>i j. i \<le> j \<Longrightarrow> j < length xs \<Longrightarrow> cmp (xs ! j) v \<Longrightarrow> cmp (xs ! i) v"
    and "\<And>i. i < first \<Longrightarrow> cmp (xs ! i) v"
    and "\<And>i. first + len \<le> i \<Longrightarrow> i < length xs \<Longrightarrow> \<not> cmp (xs ! i) v"
  shows "lower_bound_loop cmp xs v first len \<le> length xs
       \<and> (\<forall>i < lower_bound_loop cmp xs v first len. cmp (xs ! i) v)
       \<and> (\<forall>i. lower_bound_loop cmp xs v first len \<le> i \<and> i < length xs \<longrightarrow> \<not> cmp (xs ! i) v)"
  using assms
proof (induction cmp xs v first len rule: lower_bound_loop.induct)
  case (1 cmp xs v first len)
  show ?case
  proof (cases "0 < len")
    case False
    then have r: "lower_bound_loop cmp xs v first len = first"
      by (simp add: lower_bound_loop.simps)
    from False 1(3) 1(5) 1(6) show ?thesis unfolding r by auto
  next
    case True
    define half where "half = len div 2"
    define middle where "middle = first + half"
    have mid: "middle < length xs" using True 1(3) by (simp add: middle_def half_def)
    show ?thesis
    proof (cases "cmp (xs ! middle) v")
      case c: True
      have r: "lower_bound_loop cmp xs v first len
             = lower_bound_loop cmp xs v (middle + 1) (len - half - 1)"
        using True c by (subst lower_bound_loop.simps) (simp add: Let_def half_def middle_def)
      have a: "middle + 1 + (len - half - 1) \<le> length xs"
        using True 1(3) by (simp add: middle_def half_def) 
      have b: "\<And>i. i < middle + 1 \<Longrightarrow> cmp (xs ! i) v"
        using 1(4)[OF _ mid c] by simp
      have d: "\<And>i. middle + 1 + (len - half - 1) \<le> i \<Longrightarrow> i < length xs \<Longrightarrow> \<not> cmp (xs ! i) v"
        using 1(6) True by (simp add: middle_def half_def)
      show ?thesis unfolding r
        by (rule 1(1)[OF True half_def middle_def c a 1(4) b d]) 
    next
      case c: False
      have r: "lower_bound_loop cmp xs v first len = lower_bound_loop cmp xs v first half"
        using True c by (subst lower_bound_loop.simps) (simp add: Let_def half_def middle_def)
      have a: "first + half \<le> length xs" using mid by (simp add: middle_def)
      have d: "\<And>i. first + half \<le> i \<Longrightarrow> i < length xs \<Longrightarrow> \<not> cmp (xs ! i) v"
      proof -
        fix i assume "first + half \<le> i" "i < length xs"
        then show "\<not> cmp (xs ! i) v" using 1(4)[of middle i] c by (auto simp: middle_def)
      qed
      show ?thesis unfolding r
        by (rule 1(2)[OF True half_def middle_def c a 1(4) 1(5) d])
    qed
  qed
qed

lemma insert_at_insort_key:
  fixes f :: "'a \<Rightarrow> 'k::linorder"
  assumes "r \<le> length xs"
    and "\<forall>i<r. f (xs ! i) < f e"
    and "\<forall>i. r \<le> i \<and> i < length xs \<longrightarrow> f e \<le> f (xs ! i)"
  shows "insert_at r e xs = insort_key f e xs"
  using assms
proof (induction xs arbitrary: r)
  case Nil
  then show ?case by (simp add: insert_at_def)
next
  case (Cons x xs)
  show ?case
  proof (cases r)
    case 0
    with Cons.prems(3) have "f e \<le> f x" by auto
    with 0 show ?thesis by (simp add: insert_at_def)
  next
    case (Suc r')
    with Cons.prems(2) have lt: "f x < f e" by auto
    have "insert_at r' e xs = insort_key f e xs"
    proof (rule Cons.IH)
      show "r' \<le> length xs" using Cons.prems(1) Suc by simp
      show "\<forall>i<r'. f (xs ! i) < f e" using Cons.prems(2) Suc by auto
      show "\<forall>i. r' \<le> i \<and> i < length xs \<longrightarrow> f e \<le> f (xs ! i)"
        using Cons.prems(3) Suc by auto
    qed
    with lt Suc show ?thesis by (simp add: insert_at_def not_le[symmetric])
  qed
qed

lemma lower_bound_insort:
  fixes e :: dag_entry
  assumes "sorted (map timestamp h)"
  shows "insert_at (lower_bound (\<lambda>a b. timestamp a < timestamp b) h e) e h
       = insort_key timestamp e h"
proof -
  let ?cmp = "\<lambda>a b :: dag_entry. timestamp a < timestamp b"
  have part: "\<And>i j. i \<le> j \<Longrightarrow> j < length h \<Longrightarrow> ?cmp (h ! j) e \<Longrightarrow> ?cmp (h ! i) e"
  proof -
    fix i j assume ij: "i \<le> j" "j < length h" and c: "?cmp (h ! j) e"
    from assms ij have "map timestamp h ! i \<le> map timestamp h ! j"
      by (intro sorted_nth_mono) auto
    with ij c show "?cmp (h ! i) e" by simp
  qed
  have "lower_bound_loop ?cmp h e 0 (length h) \<le> length h
       \<and> (\<forall>i < lower_bound_loop ?cmp h e 0 (length h). ?cmp (h ! i) e)
       \<and> (\<forall>i. lower_bound_loop ?cmp h e 0 (length h) \<le> i \<and> i < length h \<longrightarrow> \<not> ?cmp (h ! i) e)"
    by (rule lower_bound_loop_spec) (use part in auto)
  then show ?thesis
    unfolding lower_bound_def
    by (intro insert_at_insort_key) (auto simp: not_less)
qed

lemma lower_bound_loop_0: "lower_bound_loop cmp xs v first 0 = first"
  by (subst lower_bound_loop.simps) simp

lemma lower_bound_Nil: "lower_bound cmp [] v = 0"
  by (simp add: lower_bound_def lower_bound_loop_0)

lemma lower_bound_single: "lower_bound cmp [x] v = (if cmp x v then 1 else 0)"
  unfolding lower_bound_def
  by (subst lower_bound_loop.simps) (simp add: lower_bound_loop_0)


lemma history_of_get_history: "history_of st h = get_history st h"
  by (simp add: history_of_def get_history_def)

lemma get_history_merge_entry:
  "get_history (merge_entry e st) h =
     (if entry_by_id st (entry_id e) = None \<and> chunk_hash e = h
      then insert_at (lower_bound (\<lambda>a b. timestamp a < timestamp b) (get_history st h) e) e
             (get_history st h)
      else get_history st h)"
  by (simp add: merge_entry_def get_history_def history_of_def Let_def)

lemma entry_by_id_merge_entry:
  "entry_by_id (merge_entry e st) =
     (if entry_by_id st (entry_id e) = None then (entry_by_id st)(entry_id e \<mapsto> e)
      else entry_by_id st)"
  by (simp add: merge_entry_def Let_def)

lemma get_history_add_entry:
  "get_history (snd (add_entry sha now ch devs cr st)) h =
     (if h = ch then get_history st ch @ [last (get_history (snd (add_entry sha now ch devs cr st)) ch)]
      else get_history st h)"
  by (simp add: add_entry_def get_history_def history_of_def Let_def)

lemma timestamp_add_entry:
  "timestamp (last (get_history (snd (add_entry sha now ch devs cr st)) ch)) = now"
  by (simp add: add_entry_def get_history_def history_of_def Let_def)

lemma sorted_ledger_init: "sorted_ledger consensus_init"
  by (simp add: sorted_ledger_def get_history_def consensus_init_def)

lemma sorted_ledger_merge_entry:
  assumes "sorted_ledger st" shows "sorted_ledger (merge_entry e st)"
  unfolding sorted_ledger_def
proof
  fix h
  from assms have s: "sorted (map timestamp (get_history st h))"
    by (simp add: sorted_ledger_def)
  show "sorted (map timestamp (get_history (merge_entry e st) h))"
    using s by (simp add: get_history_merge_entry lower_bound_insort sorted_insort_key)
qed

lemma sorted_ledger_add_entry:
  assumes "sorted_ledger st" and "\<forall>x \<in> set (get_history st ch). timestamp x \<le> now"
  shows "sorted_ledger (snd (add_entry sha now ch devs cr st))"
  unfolding sorted_ledger_def
proof
  fix h
  from assms have s: "sorted (map timestamp (get_history st h))"
    by (simp add: sorted_ledger_def)
  show "sorted (map timestamp (get_history (snd (add_entry sha now ch devs cr st)) h))"
  proof (cases "h = ch")
    case False
    with s show ?thesis by (subst get_history_add_entry) simp
  next
    case True
    with s assms(2) show ?thesis
      by (subst get_history_add_entry) (simp add: sorted_append timestamp_add_entry)
  qed
qed

lemma reachable_ordered_sorted: "reachable_ordered sha st \<Longrightarrow> sorted_ledger st"
  by (induction rule: reachable_ordered.induct)
     (simp_all add: sorted_ledger_init sorted_ledger_add_entry sorted_ledger_merge_entry)

lemma sorted_last_max:
  assumes "sorted (map f xs)" and "x \<in> set xs"
  shows "f x \<le> f (last xs)"
proof -
  from assms(2) obtain i where i: "i < length xs" "xs ! i = x"
    by (auto simp: in_set_conv_nth)
  then have ne: "xs \<noteq> []" by auto
  have "map f xs ! i \<le> map f xs ! (length xs - 1)"
    using assms(1) i by (intro sorted_nth_mono) auto
  with i ne show ?thesis by (simp add: last_conv_nth)
qed


lemma sorted_ledger_merge_all: "sorted_ledger st \<Longrightarrow> sorted_ledger (merge_all es st)"
  unfolding merge_all_def
  by (induction es arbitrary: st) (simp_all add: sorted_ledger_merge_entry)

lemma get_history_merge_all:
  assumes "sorted_ledger st" and "distinct (map entry_id es)"
    and "\<forall>e \<in> set es. entry_by_id st (entry_id e) = None"
  shows "get_history (merge_all es st) H
       = fold (insort_key timestamp) (filter (\<lambda>e. chunk_hash e = H) es) (get_history st H)"
  using assms
proof (induction es arbitrary: st)
  case Nil
  then show ?case by (simp add: merge_all_def)
next
  case (Cons e es)
  let ?st = "merge_entry e st"
  have fresh: "entry_by_id st (entry_id e) = None" using Cons.prems(3) by simp
  have s: "sorted_ledger ?st" using Cons.prems(1) by (rule sorted_ledger_merge_entry)
  have d: "distinct (map entry_id es)" using Cons.prems(2) by simp
  have n: "\<forall>x \<in> set es. entry_by_id ?st (entry_id x) = None"
  proof
    fix x assume x: "x \<in> set es"
    then have "entry_id x \<noteq> entry_id e" using Cons.prems(2) by (auto simp: image_iff)
    with x Cons.prems(3) show "entry_by_id ?st (entry_id x) = None"
      by (simp add: entry_by_id_merge_entry)
  qed
  have srt: "sorted (map timestamp (get_history st H))"
    using Cons.prems(1) by (simp add: sorted_ledger_def)
  have h: "get_history ?st H
         = (if chunk_hash e = H then insort_key timestamp e (get_history st H)
            else get_history st H)"
    using fresh srt by (simp add: get_history_merge_entry lower_bound_insort)
  have "get_history (merge_all (e # es) st) H = get_history (merge_all es ?st) H"
    by (simp add: merge_all_def)
  also have "\<dots> = fold (insort_key timestamp) (filter (\<lambda>e. chunk_hash e = H) es)
                     (get_history ?st H)"
    by (rule Cons.IH[OF s d n])
  finally show ?case by (simp add: h)
qed

lemma mset_fold_insort_key:
  "mset (fold (insort_key f) xs acc) = mset xs + mset acc"
  by (induction xs arbitrary: acc) simp_all

lemma get_history_merge_all_init:
  assumes "distinct (map entry_id es)"
  shows "get_history (merge_all es consensus_init) H
       = fold (insort_key timestamp) (filter (\<lambda>e. chunk_hash e = H) es) []"
proof -
  have "get_history (merge_all es consensus_init) H
      = fold (insort_key timestamp) (filter (\<lambda>e. chunk_hash e = H) es)
          (get_history consensus_init H)"
    by (rule get_history_merge_all[OF sorted_ledger_init assms])
       (simp add: consensus_init_def)
  then show ?thesis by (simp add: get_history_def consensus_init_def)
qed

lemma sorted_key_unique:
  fixes f :: "'a \<Rightarrow> 'k::linorder"
  assumes "sorted (map f xs)" and "sorted (map f ys)" and "mset xs = mset ys"
    and "distinct xs" and "inj_on f (set xs)"
  shows "xs = ys"
proof -
  have sets: "set ys = set xs" using assms(3) by (metis set_mset_mset)
  have dys: "distinct ys" using assms(3,4) by (metis mset_eq_imp_distinct_iff)
  have "distinct (map f xs)" using assms(4,5) by (simp add: distinct_map)
  moreover have "distinct (map f ys)" using dys assms(5) sets by (simp add: distinct_map)
  moreover have "set (map f xs) = set (map f ys)" using sets by simp
  ultimately have "map f xs = map f ys"
    using assms(1,2) by (intro sorted_distinct_set_unique)
  moreover have "inj_on f (set xs \<union> set ys)" using assms(5) sets by simp
  ultimately show ?thesis by (simp add: inj_on_map_eq_map)
qed


lemma filter_key_insort_key:
  "filter (\<lambda>y. f y = t) (insort_key f x ys)
     = (if f x = t then x # filter (\<lambda>y. f y = t) ys else filter (\<lambda>y. f y = t) ys)"
  by (induction ys) auto

lemma filter_key_fold_insort_key:
  "filter (\<lambda>y. f y = t) (fold (insort_key f) xs acc)
     = rev (filter (\<lambda>y. f y = t) xs) @ filter (\<lambda>y. f y = t) acc"
  by (induction xs arbitrary: acc) (simp_all add: filter_key_insort_key)


subsection \<open>Idempotent merge\<close>

text \<open>
  Claim C5. For every entry \<open>E\<close> and every ledger state, merging \<open>E\<close> twice leaves the
  ledger (the per-chunk histories and the id index) as a single merge does; and merging
  an entry whose \<open>entry_id\<close> is already indexed changes nothing.
\<close>

theorem merge_entry_idempotent:
  "merge_entry E (merge_entry E st) = merge_entry E st
   \<and> (entry_by_id st (entry_id E) \<noteq> None \<longrightarrow> merge_entry E st = st)"
  by (simp add: merge_entry_def Let_def)

theorem merge_entry_idempotent_witness:
  "merge_entry entry_a (merge_entry entry_a (merge_entry entry_a consensus_init))
     = merge_entry entry_a (merge_entry entry_a consensus_init)
   \<and> entry_by_id (merge_entry entry_a consensus_init) (entry_id entry_a) \<noteq> None
   \<and> merge_entry entry_a (merge_entry entry_a consensus_init) = merge_entry entry_a consensus_init"
  using merge_entry_idempotent [of entry_a "merge_entry entry_a consensus_init"]
  by (simp add: merge_entry_def consensus_init_def entry_a_def Let_def)

subsection \<open>Order of a merged history\<close>

text \<open>
  Claim C6, as stated, fails: two entries of the same chunk with the same timestamp and
  distinct ids end up in the history in the reverse of the order in which they were
  merged, because the insertion point is the first position whose timestamp is not
  smaller. The two orders of merging \<open>entry_a\<close> and \<open>entry_b\<close> give different
  histories.
\<close>

theorem merge_permutation_counterexample:
  "distinct (map entry_id [entry_a, entry_b]) \<and> mset [entry_b, entry_a] = mset [entry_a, entry_b]
   \<and> get_history (merge_all [entry_a, entry_b] consensus_init) ''H''
     \<noteq> get_history (merge_all [entry_b, entry_a] consensus_init) ''H''"
  by (simp add: merge_all_def merge_entry_def consensus_init_def entry_a_def entry_b_def Let_def
      get_history_def history_of_def lower_bound_Nil lower_bound_single insert_at_def
      add_mset_commute)

text \<open>
  Claim C6, amended. For entries with distinct ids merged into the empty ledger, the
  history of every chunk \<open>H\<close> is sorted non-decreasingly by timestamp, every permutation
  of the entries yields a history with the same entries, and the histories are equal
  when the entries of \<open>H\<close> have pairwise distinct timestamps. Entries with equal
  timestamps appear in the reverse of their merge order: for every timestamp \<open>t\<close> the
  entries of the history with timestamp \<open>t\<close> are, in this order, the reversed list of
  the merged entries of \<open>H\<close> with timestamp \<open>t\<close>.
\<close>

theorem merge_all_history_sorted:
  assumes "distinct (map entry_id es)" and "mset es' = mset es"
  shows "sorted (map timestamp (get_history (merge_all es consensus_init) H))
       \<and> mset (get_history (merge_all es' consensus_init) H)
           = mset (get_history (merge_all es consensus_init) H)
       \<and> (inj_on timestamp {e \<in> set es. chunk_hash e = H} \<longrightarrow>
            get_history (merge_all es' consensus_init) H
              = get_history (merge_all es consensus_init) H)
       \<and> (\<forall>t. filter (\<lambda>e. timestamp e = t) (get_history (merge_all es consensus_init) H)
              = rev (filter (\<lambda>e. chunk_hash e = H \<and> timestamp e = t) es))"
proof -
  let ?P = "\<lambda>e. chunk_hash e = H"
  let ?h = "get_history (merge_all es consensus_init) H"
  let ?h' = "get_history (merge_all es' consensus_init) H"
  have d': "distinct (map entry_id es')"
  proof -
    have "mset (map entry_id es') = mset (map entry_id es)" using assms(2) by simp
    then show ?thesis using assms(1) by (metis mset_eq_imp_distinct_iff)
  qed
  have s: "sorted (map timestamp ?h)" and s': "sorted (map timestamp ?h')"
    using sorted_ledger_merge_all[OF sorted_ledger_init] by (simp_all add: sorted_ledger_def)
  have m: "mset ?h = mset (filter ?P es)" and m': "mset ?h' = mset (filter ?P es')"
    by (simp_all add: get_history_merge_all_init assms(1) d' mset_fold_insort_key)
  have mm: "mset ?h' = mset ?h" using m m' assms(2) by simp
  have "?h' = ?h" if inj: "inj_on timestamp {e \<in> set es. chunk_hash e = H}"
  proof -
    have "distinct es" using assms(1) by (rule distinct_map[THEN iffD1, THEN conjunct1])
    then have "distinct (filter ?P es)" by simp
    then have dh: "distinct ?h" using m by (metis mset_eq_imp_distinct_iff)
    have "set ?h = {e \<in> set es. chunk_hash e = H}"
      using m by (metis set_filter set_mset_mset)
    with inj have "inj_on timestamp (set ?h)" by simp
    with s s' mm dh show ?thesis by (intro sorted_key_unique[symmetric]) simp_all
  qed
  moreover have "filter (\<lambda>e. timestamp e = t) ?h
           = rev (filter (\<lambda>e. chunk_hash e = H \<and> timestamp e = t) es)" for t
  proof -
    have "filter (\<lambda>e. timestamp e = t) ?h
        = rev (filter (\<lambda>e. timestamp e = t) (filter ?P es))"
      by (simp add: get_history_merge_all_init assms(1) filter_key_fold_insort_key)
    also have "filter (\<lambda>e. timestamp e = t) (filter ?P es)
             = filter (\<lambda>e. chunk_hash e = H \<and> timestamp e = t) es"
      by (simp add: conj_commute)
    finally show ?thesis .
  qed
  ultimately show ?thesis using s mm by blast
qed

theorem merge_all_history_sorted_witness:
  "distinct (map entry_id [entry_a, entry_c]) \<and> mset [entry_c, entry_a] = mset [entry_a, entry_c]
   \<and> inj_on timestamp {e \<in> set [entry_a, entry_c]. chunk_hash e = ''H''}
   \<and> sorted (map timestamp (get_history (merge_all [entry_a, entry_c] consensus_init) ''H''))
   \<and> get_history (merge_all [entry_c, entry_a] consensus_init) ''H''
       = get_history (merge_all [entry_a, entry_c] consensus_init) ''H''
   \<and> filter (\<lambda>e. timestamp e = 100) (get_history (merge_all [entry_a, entry_c] consensus_init) ''H'')
       = [entry_a]"
proof -
  have d: "distinct (map entry_id [entry_a, entry_c])"
    by (simp add: entry_a_def entry_c_def)
  have p: "mset [entry_c, entry_a] = mset [entry_a, entry_c]"
    by (simp add: add_mset_commute)
  have i: "inj_on timestamp {e \<in> set [entry_a, entry_c]. chunk_hash e = ''H''}"
    by (auto simp: inj_on_def entry_a_def entry_c_def)
  have f: "rev (filter (\<lambda>e. chunk_hash e = ''H'' \<and> timestamp e = 100) [entry_a, entry_c]) = [entry_a]"
    by (simp add: entry_a_def entry_c_def)
  from merge_all_history_sorted [OF d p, of "''H''"] i d p f show ?thesis by metis
qed

subsection \<open>The latest entry\<close>

text \<open>
  Claim C7, as stated, fails: \<^verbatim>\<open>add_entry\<close> appends at the end whatever the clock reads.
  After merging \<open>entry_a\<close> (timestamp 100) a local \<^verbatim>\<open>add_entry\<close> at clock reading 50
  makes the last entry, which \<^verbatim>\<open>get_latest\<close> returns, older than \<open>entry_a\<close>.
\<close>

theorem get_latest_counterexample:
  "reachable (\<lambda>_. []) (snd (add_entry (\<lambda>_. []) 50 ''H'' [''d2''] ''B'' (merge_entry entry_a consensus_init)))
   \<and> entry_a \<in> set (get_history (snd (add_entry (\<lambda>_. []) 50 ''H'' [''d2''] ''B''
         (merge_entry entry_a consensus_init))) ''H'')
   \<and> timestamp (the (get_latest (snd (add_entry (\<lambda>_. []) 50 ''H'' [''d2''] ''B''
         (merge_entry entry_a consensus_init))) ''H'')) < timestamp entry_a"
proof (intro conjI)
  show "reachable (\<lambda>_. []) (snd (add_entry (\<lambda>_. []) 50 ''H'' [''d2''] ''B'' (merge_entry entry_a consensus_init)))"
    by (intro reachable.intros)
qed (simp_all add: add_entry_def merge_entry_def consensus_init_def entry_a_def Let_def
      get_history_def get_latest_def history_of_def lower_bound_Nil insert_at_def)

text \<open>
  Claim C7, amended. For every chunk \<open>H\<close> with a non-empty history \<^verbatim>\<open>get_latest\<close> returns
  the last element of the history; and in every state reached by \<^verbatim>\<open>merge_entry\<close> calls
  and by \<^verbatim>\<open>add_entry\<close> calls whose clock reading is not behind the timestamps already
  in the history of their chunk, that element has the largest timestamp of the history.
\<close>

theorem get_latest_last_max:
  "(get_history st H \<noteq> [] \<longrightarrow> get_latest st H = Some (last (get_history st H)))
   \<and> (reachable_ordered sha st \<longrightarrow>
        (\<forall>x \<in> set (get_history st H). timestamp x \<le> timestamp (last (get_history st H))))"
proof (intro conjI impI ballI)
  assume "get_history st H \<noteq> []"
  then show "get_latest st H = Some (last (get_history st H))"
    by (simp add: get_latest_def get_history_def split: option.splits)
next
  fix x assume "reachable_ordered sha st" and x: "x \<in> set (get_history st H)"
  then have "sorted (map timestamp (get_history st H))"
    using reachable_ordered_sorted by (auto simp: sorted_ledger_def)
  with x show "timestamp x \<le> timestamp (last (get_history st H))"
    by (rule sorted_last_max[rotated])
qed

theorem get_latest_last_max_witness:
  "reachable_ordered (\<lambda>_. [])
     (snd (add_entry (\<lambda>_. []) 150 ''H'' [''d2''] ''B'' (merge_entry entry_a consensus_init)))
   \<and> get_history (snd (add_entry (\<lambda>_. []) 150 ''H'' [''d2''] ''B''
        (merge_entry entry_a consensus_init))) ''H'' \<noteq> []
   \<and> get_latest (snd (add_entry (\<lambda>_. []) 150 ''H'' [''d2''] ''B''
        (merge_entry entry_a consensus_init))) ''H''
       = Some (last (get_history (snd (add_entry (\<lambda>_. []) 150 ''H'' [''d2''] ''B''
        (merge_entry entry_a consensus_init))) ''H''))
   \<and> timestamp entry_a \<le> timestamp (last (get_history (snd (add_entry (\<lambda>_. []) 150 ''H''
        [''d2''] ''B'' (merge_entry entry_a consensus_init))) ''H''))"
proof -
  let ?st = "snd (add_entry (\<lambda>_. []) 150 ''H'' [''d2''] ''B'' (merge_entry entry_a consensus_init))"
  have h: "get_history (merge_entry entry_a consensus_init) ''H'' = [entry_a]"
    by (simp add: merge_entry_def consensus_init_def entry_a_def Let_def get_history_def
        history_of_def lower_bound_Nil insert_at_def)
  have r: "reachable_ordered (\<lambda>_. []) ?st"
    by (intro reachable_ordered.intros) (simp add: h, simp add: entry_a_def)
  have n: "get_history ?st ''H'' \<noteq> []"
    by (subst get_history_add_entry) simp
  have m: "entry_a \<in> set (get_history ?st ''H'')"
    by (subst get_history_add_entry) (simp add: h)
  from get_latest_last_max [of ?st "''H''" "\<lambda>_. []"] r n m show ?thesis by blast
qed


section \<open>The capacity gate of the scheduler\<close>

text \<open>
  Claim C2 holds of the specification and not of the code. The gate compares the free
  storage with the size in whole megabytes rounded down, not up: for a chunk of 1.5 MiB
  (1572864 bytes, 2 MB rounded up) the device \<open>small_device\<close> with 1 MB free scores 75
  and is placed by \<^verbatim>\<open>place_chunks\<close>. And \<^verbatim>\<open>place_shard\<close> ranks by
  \<open>0.4 * storage + 0.6 * compute\<close>, which is positive for a device whose storage score
  is 0: \<open>full_device\<close> with no free storage is placed for a shard of 2 MiB.
\<close>

theorem capacity_gate_failing_input:
  "real (available_storage_mb small_device) < \<lceil>1572864 / 2 ^ 20 :: real\<rceil>
   \<and> score_device_for_storage small_device 1572864 = 75
   \<and> place_chunks (register_device ''d1'' small_device (scheduler_init 3)) [''h''] 1572864
       = Inr [\<lparr>placement.chunk_hash = ''h'', placement.device_ids = [''d1''], score = 75\<rparr>]
   \<and> real (available_storage_mb full_device) < \<lceil>2097152 / 2 ^ 20 :: real\<rceil>
   \<and> score_device_for_storage full_device 2097152 = 0
   \<and> place_shard (register_device ''d2'' full_device (scheduler_init 3)) ''s'' 2097152
       = \<lparr>placement.chunk_hash = ''s'', placement.device_ids = [''d2''], score = 60\<rparr>"
proof -
  have c1: "\<lceil>1572864 / 2 ^ 20 :: real\<rceil> = 2" by (simp add: ceiling_eq_iff)
  have c2: "\<lceil>2097152 / 2 ^ 20 :: real\<rceil> = 2" by (simp add: ceiling_eq_iff)
  have s1: "score_device_for_storage small_device 1572864 = 75"
    by (simp add: score_device_for_storage_def small_device_def telemetry_default_def Let_def)
  have s2: "score_device_for_storage full_device 2097152 = 0"
    by (simp add: score_device_for_storage_def full_device_def telemetry_default_def Let_def)
  have k2: "score_device_for_compute full_device = 100"
    by (simp add: score_device_for_compute_def compute_score_def full_device_def
        telemetry_default_def)
  have p1: "place_chunks (register_device ''d1'' small_device (scheduler_init 3)) [''h''] 1572864
       = Inr [\<lparr>placement.chunk_hash = ''h'', placement.device_ids = [''d1''], score = 75\<rparr>]"
    by (simp add: place_chunk_def register_device_def scheduler_init_def select_devices_def
        s1 Let_def)
  have p2: "place_shard (register_device ''d2'' full_device (scheduler_init 3)) ''s'' 2097152
       = \<lparr>placement.chunk_hash = ''s'', placement.device_ids = [''d2''], score = 60\<rparr>"
    by (simp add: place_shard_def register_device_def scheduler_init_def select_devices_def
        s2 k2 Let_def)
  show ?thesis
    unfolding c1 c2 using s1 s2 p1 p2
    by (simp add: small_device_def full_device_def)
qed


section \<open>Properties of the chunk store\<close>

subsection \<open>What the loop of store leaves behind\<close>

lemma persist_chunk_fields:
  "chunks (snd (persist_chunk X h c st)) = chunks st"
  "content_map (snd (persist_chunk X h c st)) = content_map st"
  "chunk_size (snd (persist_chunk X h c st)) = chunk_size st"
  "rng (snd (persist_chunk X h c st)) = rng st"
  by (simp_all add: persist_chunk_def split: prod.splits)

lemma generate_random_Inr:
  assumes "generate_random n st = (Inr bs, st')"
  shows "n \<le> length (rng st) \<and> bs = take n (rng st) \<and> st' = st\<lparr>rng := drop n (rng st)\<rparr>"
  using assms by (auto simp: generate_random_def split: if_splits)

lemma aes_gcm_encrypt_Inr:
  assumes "aes_gcm_encrypt X p key st = (Inr (ct, v, t), st')"
  shows "gcm_encrypt X key v p = Some (ct, t) \<and> chunks st' = chunks st
       \<and> content_map st' = content_map st \<and> chunk_size st' = chunk_size st"
  using assms
  by (auto simp: aes_gcm_encrypt_def generate_random_def split: if_splits option.splits)

lemma make_chunk_Inr:
  assumes "make_chunk X k payload encrypt key offset st = (Inr c, st')"
  shows "0 < k \<and> made X k payload encrypt key offset c \<and> chunks st' = chunks st
       \<and> content_map st' = content_map st \<and> chunk_size st' = chunk_size st"
proof -
  obtain compressed where z: "zstd_compress X (chunk_slice k payload offset) = Some compressed"
    using assms
    by (auto simp: make_chunk_def Let_def compress_def chunk_slice_def split: option.splits)
  have k: "0 < k" using assms z
    by (auto simp: make_chunk_def Let_def compress_def chunk_slice_def split: if_splits)
  show ?thesis
  proof (cases encrypt)
    case False
    with assms z k show ?thesis
      by (auto simp: make_chunk_def Let_def compress_def chunk_slice_def made_def)
  next
    case True
    with assms z k obtain ct v t where
      e: "aes_gcm_encrypt X compressed key st = (Inr (ct, v, t), st')"
      and c: "c = \<lparr>hash = compute_hash X ct, data = ct, iv = v, tag = t,
                   original_size = min k (length payload - offset),
                   index = offset div k, is_encrypted = True\<rparr>"
      by (auto simp: make_chunk_def Let_def compress_def chunk_slice_def
               split: prod.splits sum.splits)
    from aes_gcm_encrypt_Inr[OF e] z k c True show ?thesis
      by (simp add: made_def)
  qed
qed

lemma ins_apply: "ins c m = m(hash c \<mapsto> c)"
  by (simp add: ins_def)

lemma store_loop_Inr:
  assumes "store_loop X k payload encrypt key offset hs st = (Inr hs', st')"
  shows "\<exists>cs. hs' = hs @ map hash cs
            \<and> list_all2 (made X k payload encrypt key) (offsets k (length payload) offset) cs
            \<and> chunks st' = fold ins cs (chunks st)
            \<and> content_map st' = content_map st \<and> chunk_size st' = chunk_size st"
  using assms
proof (induction X k payload encrypt key offset hs st rule: store_loop.induct)
  case (1 X k payload encrypt key offset hs st)
  show ?case
  proof (cases "offset < length payload")
    case False
    with "1.prems" have "hs' = hs" "st' = st" by (simp_all add: store_loop.simps)
    moreover from False have "offsets k (length payload) offset = []"
      by (simp add: offsets.simps)
    ultimately show ?thesis by simp
  next
    case True
    obtain r st1 where mc: "make_chunk X k payload encrypt key offset st = (r, st1)"
      by (cases "make_chunk X k payload encrypt key offset st")
    with True "1.prems" obtain c where r: "r = Inr c"
      by (cases r) (simp_all add: store_loop.simps)
    let ?st2 = "snd (persist_chunk X (hash c) c (st1\<lparr>chunks := (chunks st1)(hash c \<mapsto> c)\<rparr>))"
    from True "1.prems" mc r
    have rec: "store_loop X k payload encrypt key (offset + k) (hs @ [hash c]) ?st2 = (Inr hs', st')"
      by (simp add: store_loop.simps)
    from make_chunk_Inr[OF mc[unfolded r]]
    have k: "0 < k" and m: "made X k payload encrypt key offset c"
      and f: "chunks st1 = chunks st" "content_map st1 = content_map st"
        "chunk_size st1 = chunk_size st"
      by simp_all
    from "1.IH"[OF True mc[symmetric] r rec]
    obtain cs where cs: "hs' = (hs @ [hash c]) @ map hash cs"
      "list_all2 (made X k payload encrypt key) (offsets k (length payload) (offset + k)) cs"
      "chunks st' = fold ins cs (chunks ?st2)"
      "content_map st' = content_map ?st2" "chunk_size st' = chunk_size ?st2"
      by blast
    have o: "offsets k (length payload) offset = offset # offsets k (length payload) (offset + k)"
      using True k by (subst offsets.simps) simp
    have ch: "chunks ?st2 = ins c (chunks st)"
      by (simp add: persist_chunk_fields f ins_def)
    have c3: "chunks st' = fold ins (c # cs) (chunks st)"
      using cs(3) unfolding ch by simp
    have c45: "content_map st' = content_map st" "chunk_size st' = chunk_size st"
      using cs(4,5) f by (simp_all add: persist_chunk_fields)
    have "hs' = hs @ map hash (c # cs)" using cs(1) by simp
    moreover have "list_all2 (made X k payload encrypt key)
                     (offsets k (length payload) offset) (c # cs)"
      using cs(2) m o by simp
    ultimately show ?thesis using c3 c45 by blast
  qed
qed

lemma offsets_step: "offset < n \<Longrightarrow> 0 < k \<Longrightarrow> offsets k n offset = offset # offsets k n (offset + k)"
  by (subst offsets.simps) simp

lemma offsets_done: "\<not> (offset < n \<and> 0 < k) \<Longrightarrow> offsets k n offset = []"
  by (subst offsets.simps) simp

lemma offsets_eq:
  "0 < k \<Longrightarrow> offsets k n offset = map (\<lambda>i. offset + i * k) [0..<(n - offset + k - 1) div k]"
proof (induction k n offset rule: offsets.induct)
  case (1 k n offset)
  show ?case
  proof (cases "offset < n")
    case False
    then have "(n - offset + k - 1) div k = 0" using "1.prems" by simp
    with False show ?thesis by (simp add: offsets_done)
  next
    case True
    let ?m = "(n - (offset + k) + k - 1) div k"
    have d: "(n - offset + k - 1) div k = Suc ?m"
    proof -
      define a where "a = n - offset - 1"
      have e1: "n - offset + k - 1 = a + k" using True by (simp add: a_def)
      have e2: "(a + k) div k = Suc (a div k)" using "1.prems" by simp
      have e3: "?m = a div k"
      proof (cases "offset + k \<le> n")
        case le: True
        then have "n - (offset + k) + k - 1 = a" using "1.prems" by (simp add: a_def)
        then show ?thesis by simp
      next
        case gt: False
        then have "n - (offset + k) + k - 1 = k - 1" by simp
        moreover have "a < k" using gt True by (simp add: a_def)
        ultimately show ?thesis using "1.prems" by simp
      qed
      show ?thesis unfolding e1 e2 e3 ..
    qed
    have "offsets k n offset = offset # offsets k n (offset + k)"
      using True "1.prems" by (rule offsets_step)
    also have "offsets k n (offset + k) = map (\<lambda>i. offset + k + i * k) [0..<?m]"
      using "1.IH" True "1.prems" by simp
    also have "offset # map (\<lambda>i. offset + k + i * k) [0..<?m]
             = map (\<lambda>i. offset + i * k) [0..<Suc ?m]"
      by (simp add: upt_conv_Cons map_Suc_upt[symmetric] del: upt_Suc) 
    finally show ?thesis unfolding d .
  qed
qed

lemma length_offsets: "0 < k \<Longrightarrow> length (offsets k n 0) = (n + k - 1) div k"
  by (simp add: offsets_eq)

lemma nth_offsets: "0 < k \<Longrightarrow> i < (n + k - 1) div k \<Longrightarrow> offsets k n 0 ! i = i * k"
  by (simp add: offsets_eq)

lemma concat_slices:
  "0 < k \<Longrightarrow> concat (map (chunk_slice k payload) (offsets k (length payload) offset)) = drop offset payload"
proof (induction k "length payload" offset rule: offsets.induct)
  case (1 k offset)
  show ?case
  proof (cases "offset < length payload")
    case False
    with "1.prems" show ?thesis by (simp add: offsets_done)
  next
    case True
    have s: "chunk_slice k payload offset = take k (drop offset payload)"
      by (simp add: chunk_slice_def min_def)
    have "concat (map (chunk_slice k payload) (offsets k (length payload) offset))
        = chunk_slice k payload offset @ concat (map (chunk_slice k payload) (offsets k (length payload) (offset + k)))"
      using True "1.prems" by (simp add: offsets_step)
    also have "\<dots> = take k (drop offset payload) @ drop (offset + k) payload"
      using "1.hyps" True "1.prems" s by simp
    also have "\<dots> = drop offset payload"
      by (metis add.commute append_take_drop_id drop_drop)
    finally show ?thesis .
  qed
qed

lemma concat_payload_slices:
  assumes "0 < k \<or> payload = []"
  shows "concat (payload_slices k payload) = payload"
proof (cases "0 < k")
  case True
  then show ?thesis using concat_slices[of k payload 0] by (simp add: payload_slices_def)
next
  case False
  with assms show ?thesis by (simp add: payload_slices_def offsets_done)
qed

lemma fold_ins_snoc: "fold ins (cs @ [c]) m = (fold ins cs m)(hash c \<mapsto> c)"
  by (simp add: ins_def)

lemma fold_ins_lookup:
  assumes "i < length cs"
  shows "\<exists>j. i \<le> j \<and> j < length cs \<and> hash (cs ! j) = hash (cs ! i)
             \<and> fold ins cs m (hash (cs ! i)) = Some (cs ! j)"
  using assms
proof (induction cs arbitrary: i rule: rev_induct)
  case Nil
  then show ?case by simp
next
  case (snoc c cs)
  show ?case
  proof (cases "hash c = hash ((cs @ [c]) ! i)")
    case True
    have "fold ins (cs @ [c]) m (hash ((cs @ [c]) ! i)) = Some ((cs @ [c]) ! length cs)"
      unfolding fold_ins_snoc using True by simp
    moreover have "hash ((cs @ [c]) ! length cs) = hash ((cs @ [c]) ! i)" using True by simp
    moreover have "i \<le> length cs" "length cs < length (cs @ [c])" using snoc.prems by simp_all
    ultimately show ?thesis by blast
  next
    case False
    then have i: "i < length cs" using snoc.prems by (cases "i = length cs") auto
    from snoc.IH[OF i] obtain j where j: "i \<le> j" "j < length cs"
      "hash (cs ! j) = hash (cs ! i)" "fold ins cs m (hash (cs ! i)) = Some (cs ! j)"
      by blast
    have "fold ins (cs @ [c]) m (hash ((cs @ [c]) ! i)) = Some ((cs @ [c]) ! j)"
      unfolding fold_ins_snoc using False i j by (simp add: nth_append)
    moreover have "hash ((cs @ [c]) ! j) = hash ((cs @ [c]) ! i)"
      using i j by (simp add: nth_append)
    ultimately show ?thesis using j(1,2) by (intro exI[of _ j]) simp
  qed
qed

lemma store_Inr:
  assumes "store X payload content_id encrypt st = (Inr hs, st')"
  shows "\<exists>cs key. pbkdf2 X content_id (take 32 (rng st)) = Some key \<and> 32 \<le> length (rng st)
          \<and> hs = map hash cs
          \<and> list_all2 (made X (chunk_size st) payload encrypt key)
                (offsets (chunk_size st) (length payload) 0) cs
          \<and> chunks st' = fold ins cs (chunks st)
          \<and> content_map st' = (content_map st)(content_id \<mapsto> hs)
          \<and> chunk_size st' = chunk_size st"
proof -
  from assms obtain salt st1 where g: "generate_random 32 st = (Inr salt, st1)"
    by (cases "generate_random 32 st") (auto simp: store_def split: sum.splits)
  from generate_random_Inr[OF g] have g': "32 \<le> length (rng st)" "salt = take 32 (rng st)"
    "st1 = st\<lparr>rng := drop 32 (rng st)\<rparr>" by simp_all
  from assms g obtain key where k: "pbkdf2 X content_id salt = Some key"
    by (auto simp: store_def derive_key_def split: option.splits)
  from assms g k obtain st2 where
    l: "store_loop X (chunk_size st1) payload encrypt key 0 [] st1 = (Inr hs, st2)"
    and st': "st' = st2\<lparr>content_map := (content_map st2)(content_id \<mapsto> hs),
                        db := fst (db_put X (''content_map:'' @ content_id)
                                     (mapping_value hs) (db st2))\<rparr>"
    by (auto simp: store_def derive_key_def split: prod.splits sum.splits)
  from store_loop_Inr[OF l] obtain cs where cs: "hs = map hash cs"
    "list_all2 (made X (chunk_size st1) payload encrypt key)
       (offsets (chunk_size st1) (length payload) 0) cs"
    "chunks st2 = fold ins cs (chunks st1)" "content_map st2 = content_map st1"
    "chunk_size st2 = chunk_size st1"
    by auto
  show ?thesis
    apply (rule exI[of _ cs], rule exI[of _ key])
    using cs k g' st' by simp
qed

lemma store_loop_Inr_pos:
  assumes "store_loop X k payload encrypt key offset hs st = (Inr hs', st')"
    and "offset < length payload"
  shows "0 < k"
proof -
  obtain r st1 where mc: "make_chunk X k payload encrypt key offset st = (r, st1)"
    by (cases "make_chunk X k payload encrypt key offset st")
  with assms obtain c where "r = Inr c"
    by (cases r) (simp_all add: store_loop.simps)
  with mc make_chunk_Inr show ?thesis by blast
qed

lemma store_Inr_pos:
  assumes "store X payload content_id encrypt st = (Inr hs, st')"
  shows "0 < chunk_size st \<or> payload = []"
proof (cases "payload = []")
  case False
  from assms obtain key st2 where
    "store_loop X (chunk_size st) payload encrypt key 0 [] (st\<lparr>rng := drop 32 (rng st)\<rparr>)
       = (Inr hs, st2)"
    by (auto simp: store_def generate_random_def derive_key_def
             split: prod.splits sum.splits if_splits option.splits)
  from store_loop_Inr_pos[OF this] False show ?thesis by simp
qed simp

lemma retrieve_loop_plain:
  assumes "list_all2 (\<lambda>h x. \<exists>c. chunks st h = Some c \<and> \<not> is_encrypted c
                          \<and> decompress X (data c) (original_size c) = Inr x) hs xs"
  shows "retrieve_loop X key hs acc st = (Inr (acc @ concat xs), st)"
  using assms
proof (induction arbitrary: acc rule: list_all2_induct)
  case Nil
  then show ?case by simp
next
  case (Cons h hs x xs)
  from Cons.hyps(1) obtain c where c: "chunks st h = Some c" "\<not> is_encrypted c"
    "decompress X (data c) (original_size c) = Inr x" by blast
  have "fetch_chunk X h st = (Inr c, st)" using c(1) by (simp add: fetch_chunk_def get_chunk_def)
  then have "retrieve_loop X key (h # hs) acc st = retrieve_loop X key hs (acc @ x) st"
    using c(2,3) by simp
  then show ?case using Cons.IH[of "acc @ x"] by simp
qed

lemma retrieve_cached:
  assumes "content_map st content_id = Some hs" and "32 \<le> length (rng st)"
    and "pbkdf2 X content_id (take 32 (rng st)) = Some key"
  shows "retrieve X content_id st = retrieve_loop X key hs [] (st\<lparr>rng := drop 32 (rng st)\<rparr>)"
  using assms by (simp add: retrieve_def resolve_hashes_def generate_random_def derive_key_def)

lemma length_chunk_slice: "length (chunk_slice k payload offset) = min k (length payload - offset)"
  by (simp add: chunk_slice_def)

lemma decompress_inverse:
  assumes "zstd_inverse X" and "zstd_compress X x = Some c"
  shows "decompress X c (length x) = Inr x"
  using assms by (simp add: zstd_inverse_def decompress_def)

lemma made_plain_hash:
  assumes "made X k payload False key offset c"
  shows "hash c = compute_hash X (the (zstd_compress X (chunk_slice k payload offset)))"
  using assms by (auto simp: made_def)

lemma store_plain_hashes:
  assumes "store X payload content_id False st = (Inr hs, st')"
  shows "hs = map (\<lambda>offset. compute_hash X (the (zstd_compress X (chunk_slice (chunk_size st) payload offset))))
                (offsets (chunk_size st) (length payload) 0)"
proof -
  from store_Inr[OF assms] obtain cs key where cs: "hs = map hash cs"
    "list_all2 (made X (chunk_size st) payload False key)
       (offsets (chunk_size st) (length payload) 0) cs"
    by blast
  from cs(2) have "map hash cs
      = map (\<lambda>offset. compute_hash X (the (zstd_compress X (chunk_slice (chunk_size st) payload offset))))
            (offsets (chunk_size st) (length payload) 0)"
    by (induction rule: list_all2_induct) (simp_all add: made_plain_hash)
  with cs(1) show ?thesis by simp
qed


lemma ceil_div_inner:
  assumes "0 < k" and "Suc i < (n + k - 1) div k"
  shows "Suc i * k < n"
proof -
  from assms(2) have "Suc (Suc i) \<le> (n + k - 1) div k" by simp
  then have "Suc (Suc i) * k \<le> n + k - 1"
    using assms(1) by (simp add: less_eq_div_iff_mult_less_eq)
  then show ?thesis using assms(1) by simp
qed

lemma ceil_div_last:
  assumes "0 < k" and "Suc i = (n + k - 1) div k"
  shows "min k (n - i * k) = (if n mod k = 0 then k else n mod k)"
proof -
  define q r where "q = n div k" and "r = n mod k"
  have n: "n = q * k + r" and r: "r < k" using assms(1) by (simp_all add: q_def r_def)
  show ?thesis
  proof (cases "r = 0")
    case True
    then have e: "n + k - 1 = (k - 1) + q * k" using n assms(1) by simp
    have "(n + k - 1) div k = ((k - 1) + q * k) div k" by (simp only: e)
    also have "\<dots> = q + (k - 1) div k" using assms(1) by (subst div_mult_self1) simp_all
    also have "\<dots> = q" using assms(1) by simp
    finally have "(n + k - 1) div k = q" .
    with assms(2) have "q = Suc i" by simp
    then have "n - i * k = k" using n True by simp
    with True show ?thesis by (simp add: r_def)
  next
    case False
    then have e: "n + k - 1 = (r - 1) + Suc q * k" using n by simp
    have "(n + k - 1) div k = ((r - 1) + Suc q * k) div k" by (simp only: e)
    also have "\<dots> = Suc q + (r - 1) div k" using assms(1) by (subst div_mult_self1) simp_all
    also have "\<dots> = Suc q" using r by simp
    finally have "(n + k - 1) div k = Suc q" .
    with assms(2) have "q = i" by simp
    then have "n - i * k = r" using n by simp
    with False r show ?thesis by (simp add: r_def)
  qed
qed


lemma store_empty:
  assumes "32 \<le> length (rng st)" and "pbkdf2 X content_id (take 32 (rng st)) = Some key"
  shows "store X [] content_id encrypt st =
           (Inr [], st\<lparr>rng := drop 32 (rng st),
                       content_map := (content_map st)(content_id \<mapsto> []),
                       db := fst (db_put X (''content_map:'' @ content_id) (mapping_value []) (db st))\<rparr>)"
  using assms
  by (simp add: store_def generate_random_def derive_key_def store_loop.simps)

subsection \<open>The small instance\<close>

lemmas sample_eval =
  store_def sample_store_def generate_random_def derive_key_def sample_externals_def
  store_loop.simps make_chunk_def compress_def Let_def persist_chunk_def compute_hash_def
  hex_string_def hex_byte_def hex_digit_def aes_gcm_encrypt_def

lemma zstd_inverse_sample: "zstd_inverse sample_externals"
  by (auto simp: zstd_inverse_def sample_externals_def)

lemma gcm_authentic_sample: "gcm_authentic sample_externals"
  by (auto simp: gcm_authentic_def sample_externals_def)

lemma payload_slices_sample: "payload_slices 2 [1, 2, 3] = [[1, 2], [3]]"
  by (simp add: payload_slices_def offsets_step offsets_done chunk_slice_def)

lemma no_collision_sample: "no_collision sample_externals 2 [1, 2, 3]"
  unfolding no_collision_def payload_slices_sample
  by (auto simp: sample_externals_def compute_hash_def hex_string_def hex_byte_def hex_digit_def)


subsection \<open>Persistence: what the database holds and what is read back\<close>

lemma bytes_string_string_bytes: "bytes_string (string_bytes s) = s"
proof -
  have "char_of (unat (of_nat (of_char c) :: byte)) = c" for c :: char
  proof -
    have "(of_char c :: nat) < 256" by simp
    then have "unat (of_nat (of_char c) :: byte) = of_char c"
      by (simp add: unat_of_nat)
    then show ?thesis by simp
  qed
  then show ?thesis by (simp add: bytes_string_def string_bytes_def map_idI)
qed

lemma length_le_bytes: "length (le_bytes n v) = n"
  by (induction n arbitrary: v) simp_all

lemma le_nat_le_bytes: "le_nat (le_bytes n v) = v mod 256 ^ n"
proof (induction n arbitrary: v)
  case 0
  then show ?case by simp
next
  case (Suc n)
  have u: "unat (of_nat (v mod 256) :: byte) = v mod 256"
    by (simp add: unat_of_nat)
  have "le_nat (le_bytes (Suc n) v) = v mod 256 + 256 * ((v div 256) mod 256 ^ n)"
    using Suc[of "v div 256"] u by simp
  also have "\<dots> = v mod (256 * 256 ^ n)"
    by (simp add: mod_mult2_eq)
  finally show ?case by simp
qed

lemma le_nat_le_bytes_id: "v < 256 ^ n \<Longrightarrow> le_nat (le_bytes n v) = v"
  by (simp add: le_nat_le_bytes)

lemma read_bytes_at:
  assumes "length pre = off" and "length x = n"
  shows "read_bytes (pre @ x @ post) off n = Some x"
  using assms by (simp add: read_bytes_def)

lemma read_le_at:
  assumes "length pre = off" and "v < 256 ^ n"
  shows "read_le (pre @ le_bytes n v @ post) off n = Some v"
  using assms by (simp add: read_le_def read_bytes_at length_le_bytes le_nat_le_bytes_id)

lemma parse_chunk_serialize:
  assumes "original_size c < 2 ^ 64" and "index c < 2 ^ 64"
    and "length (iv c) < 2 ^ 32" and "length (tag c) < 2 ^ 32" and "length (data c) < 2 ^ 32"
  shows "parse_chunk h (serialize_chunk c) = Some (c\<lparr>hash := h\<rparr>)"
proof -
  define A where "A = le_bytes 8 (original_size c)"
  define B where "B = le_bytes 8 (index c)"
  define E :: bytes where "E = le_bytes 1 (if is_encrypted c then 1 else 0)"
  define L1 where "L1 = le_bytes 4 (length (iv c))"
  define L2 where "L2 = le_bytes 4 (length (tag c))"
  define L3 where "L3 = le_bytes 4 (length (data c))"
  let ?v = "serialize_chunk c"
  have lens: "length A = 8" "length B = 8" "length E = 1" "length L1 = 4" "length L2 = 4"
    "length L3 = 4"
    by (simp_all add: A_def B_def E_def L1_def L2_def L3_def length_le_bytes)
  have E: "[if is_encrypted c then 1 else 0] = E"
    by (simp add: E_def)
  have v: "?v = A @ B @ E @ L1 @ iv c @ L2 @ tag c @ L3 @ data c"
    unfolding serialize_chunk_def E A_def B_def L1_def L2_def L3_def by simp
  have b64: "(2::nat) ^ 64 = 256 ^ 8" and b32: "(2::nat) ^ 32 = 256 ^ 4" by simp_all
  have r1: "read_le ?v 0 8 = Some (original_size c)"
    unfolding v A_def using read_le_at[of "[]" 0 "original_size c" 8] assms(1) b64 by simp
  have r2: "read_le ?v 8 8 = Some (index c)"
    unfolding v B_def using read_le_at[of A 8 "index c" 8] assms(2) b64 lens by simp
  have r3: "read_le ?v 16 1 = Some (if is_encrypted c then 1 else 0)"
    unfolding v E_def
    using read_le_at[of "A @ B" 16 "if is_encrypted c then 1 else 0" 1] lens by simp
  have r4: "read_le ?v 17 4 = Some (length (iv c))"
    unfolding v L1_def
    using read_le_at[of "A @ B @ E" 17 "length (iv c)" 4] assms(3) b32 lens by simp
  have r5: "read_bytes ?v 21 (length (iv c)) = Some (iv c)"
    unfolding v
    using read_bytes_at[of "A @ B @ E @ L1" 21 "iv c" "length (iv c)"] lens by simp
  have r6: "read_le ?v (21 + length (iv c)) 4 = Some (length (tag c))"
    unfolding v L2_def
    using read_le_at[of "A @ B @ E @ L1 @ iv c" "21 + length (iv c)" "length (tag c)" 4]
      assms(4) b32 lens by simp
  have r7: "read_bytes ?v (25 + length (iv c)) (length (tag c)) = Some (tag c)"
    unfolding v
    using read_bytes_at[of "A @ B @ E @ L1 @ iv c @ L2" "25 + length (iv c)" "tag c"
        "length (tag c)"] lens by simp
  have r8: "read_le ?v (25 + length (iv c) + length (tag c)) 4 = Some (length (data c))"
    unfolding v L3_def
    using read_le_at[of "A @ B @ E @ L1 @ iv c @ L2 @ tag c"
        "25 + length (iv c) + length (tag c)" "length (data c)" 4]
      assms(5) b32 lens by simp
  have r9: "read_bytes ?v (29 + length (iv c) + length (tag c)) (length (data c)) = Some (data c)"
    unfolding v
    using read_bytes_at[of "A @ B @ E @ L1 @ iv c @ L2 @ tag c @ L3"
        "29 + length (iv c) + length (tag c)" "data c" "length (data c)" "[]"] lens by simp
  have "parse_chunk h ?v
      = Some \<lparr>hash = h, data = data c, iv = iv c, tag = tag c,
              original_size = original_size c, index = index c,
              is_encrypted = is_encrypted c\<rparr>"
    using r3 by (simp add: parse_chunk_def r1 r2 r4 r5 r6 r7 r8 r9)
  then show ?thesis by (cases c) simp
qed

lemma getline_tokens_token:
  assumes "CHR '';'' \<notin> set h"
  shows "getline_tokens (h @ CHR '';'' # rest) cur
       = (if cur @ h = [] then [] else [cur @ h]) @ getline_tokens rest []"
  using assms by (induction h arbitrary: cur) auto

lemma getline_tokens_join:
  assumes "\<forall>h \<in> set hs. h \<noteq> [] \<and> CHR '';'' \<notin> set h"
  shows "getline_tokens (concat (map (\<lambda>h. h @ '';'') hs)) [] = hs"
  using assms
proof (induction hs)
  case Nil
  then show ?case by simp
next
  case (Cons h hs)
  have "getline_tokens (concat (map (\<lambda>h. h @ '';'') (h # hs))) []
      = getline_tokens (h @ CHR '';'' # concat (map (\<lambda>h. h @ '';'') hs)) []"
    by simp
  also have "\<dots> = [h] @ getline_tokens (concat (map (\<lambda>h. h @ '';'') hs)) []"
    using Cons.prems by (subst getline_tokens_token) simp_all
  finally show ?case using Cons by simp
qed

lemma parse_mapping_value:
  assumes "\<forall>h \<in> set hs. h \<noteq> [] \<and> CHR '';'' \<notin> set h"
  shows "parse_mapping (mapping_value hs) = hs"
  using assms
  by (simp add: parse_mapping_def mapping_value_def bytes_string_string_bytes getline_tokens_join)

lemma hex_digit_not_semicolon: "hex_digit n \<noteq> CHR '';''"
proof -
  have "n mod 16 < length ''0123456789abcdef''" by simp
  then have "hex_digit n \<in> set ''0123456789abcdef''"
    unfolding hex_digit_def by (rule nth_mem)
  then show ?thesis by auto
qed

lemma hex_string_no_semicolon: "CHR '';'' \<notin> set (hex_string bs)"
  by (induction bs) (simp_all add: hex_string_def hex_byte_def hex_digit_not_semicolon[symmetric])

lemma persist_chunk_db:
  "db (snd (persist_chunk X (hash c) c st)) = put_chunk X c (db st)"
  by (simp add: persist_chunk_def put_chunk_def split: prod.splits)

lemma make_chunk_db:
  assumes "make_chunk X k payload encrypt key offset st = (r, st')"
  shows "db st' = db st"
  using assms
  by (auto simp: make_chunk_def Let_def aes_gcm_encrypt_def generate_random_def
           split: sum.splits if_splits option.splits prod.splits)

lemma make_chunk_plain:
  assumes "make_chunk X k payload False key offset st = (Inr c, st')"
  shows "iv c = [] \<and> tag c = []"
  using assms
  by (auto simp: make_chunk_def Let_def split: sum.splits if_splits)

lemma store_loop_db:
  assumes "store_loop X k payload encrypt key offset hs st = (Inr hs', st')"
  shows "\<exists>cs. hs' = hs @ map hash cs
            \<and> list_all2 (made X k payload encrypt key) (offsets k (length payload) offset) cs
            \<and> (encrypt \<or> (\<forall>c \<in> set cs. iv c = [] \<and> tag c = []))
            \<and> db st' = fold (put_chunk X) cs (db st)"
  using assms
proof (induction X k payload encrypt key offset hs st rule: store_loop.induct)
  case (1 X k payload encrypt key offset hs st)
  show ?case
  proof (cases "offset < length payload")
    case False
    with "1.prems" have "hs' = hs" "st' = st" by (simp_all add: store_loop.simps)
    moreover from False have "offsets k (length payload) offset = []"
      by (simp add: offsets.simps)
    ultimately show ?thesis by simp
  next
    case True
    obtain r st1 where mc: "make_chunk X k payload encrypt key offset st = (r, st1)"
      by (cases "make_chunk X k payload encrypt key offset st")
    with True "1.prems" obtain c where r: "r = Inr c"
      by (cases r) (simp_all add: store_loop.simps)
    let ?st2 = "snd (persist_chunk X (hash c) c (st1\<lparr>chunks := (chunks st1)(hash c \<mapsto> c)\<rparr>))"
    from True "1.prems" mc r
    have rec: "store_loop X k payload encrypt key (offset + k) (hs @ [hash c]) ?st2 = (Inr hs', st')"
      by (simp add: store_loop.simps)
    from make_chunk_Inr[OF mc[unfolded r]]
    have k: "0 < k" and m: "made X k payload encrypt key offset c"
      by simp_all
    from "1.IH"[OF True mc[symmetric] r rec]
    obtain cs where cs: "hs' = (hs @ [hash c]) @ map hash cs"
      "list_all2 (made X k payload encrypt key) (offsets k (length payload) (offset + k)) cs"
      "db st' = fold (put_chunk X) cs (db ?st2)"
      and pl: "encrypt \<or> (\<forall>c \<in> set cs. iv c = [] \<and> tag c = [])"
      by blast
    have pl': "encrypt \<or> (\<forall>x \<in> set (c # cs). iv x = [] \<and> tag x = [])"
    proof (cases encrypt)
      case False
      with make_chunk_plain[of X k payload key offset st c st1] mc r pl show ?thesis by simp
    qed simp
    have o: "offsets k (length payload) offset = offset # offsets k (length payload) (offset + k)"
      using True k by (rule offsets_step)
    have d2: "db ?st2 = put_chunk X c (db st)"
      unfolding persist_chunk_db using make_chunk_db[OF mc] by simp
    have c3: "db st' = fold (put_chunk X) (c # cs) (db st)"
      using cs(3) unfolding d2 by simp
    have "hs' = hs @ map hash (c # cs)" using cs(1) by simp
    moreover have "list_all2 (made X k payload encrypt key)
                     (offsets k (length payload) offset) (c # cs)"
      using cs(2) m o by simp
    ultimately show ?thesis using c3 pl' by blast
  qed
qed

lemma store_db:
  assumes "store X payload content_id encrypt st = (Inr hs, st')"
  shows "\<exists>cs key. hs = map hash cs
          \<and> list_all2 (made X (chunk_size st) payload encrypt key)
                (offsets (chunk_size st) (length payload) 0) cs
          \<and> (encrypt \<or> (\<forall>c \<in> set cs. iv c = [] \<and> tag c = []))
          \<and> db st' = fst (db_put X (''content_map:'' @ content_id) (mapping_value hs)
                            (fold (put_chunk X) cs (db st)))"
proof -
  from assms obtain salt st1 where g: "generate_random 32 st = (Inr salt, st1)"
    by (cases "generate_random 32 st") (auto simp: store_def split: sum.splits)
  from generate_random_Inr[OF g] have g': "st1 = st\<lparr>rng := drop 32 (rng st)\<rparr>" by simp
  from assms g obtain key where k: "pbkdf2 X content_id salt = Some key"
    by (auto simp: store_def derive_key_def split: option.splits)
  from assms g k obtain st2 where
    l: "store_loop X (chunk_size st1) payload encrypt key 0 [] st1 = (Inr hs, st2)"
    and st': "st' = st2\<lparr>content_map := (content_map st2)(content_id \<mapsto> hs),
                        db := fst (db_put X (''content_map:'' @ content_id)
                                     (mapping_value hs) (db st2))\<rparr>"
    by (auto simp: store_def derive_key_def split: prod.splits sum.splits)
  from store_loop_db[OF l] obtain cs where cs: "hs = map hash cs"
    "list_all2 (made X (chunk_size st1) payload encrypt key)
       (offsets (chunk_size st1) (length payload) 0) cs"
    "db st2 = fold (put_chunk X) cs (db st1)"
    "encrypt \<or> (\<forall>c \<in> set cs. iv c = [] \<and> tag c = [])"
    by auto
  show ?thesis
    apply (rule exI[of _ cs], rule exI[of _ key])
    using cs g' st' by simp
qed

lemma fold_put_chunk_snoc:
  "fold (put_chunk X) (cs @ [c]) d = put_chunk X c (fold (put_chunk X) cs d)"
  by simp

lemma db_get_put_chunk:
  assumes "db_map X"
  shows "db_get X (''chunk:'' @ h) (put_chunk X c d)
       = (if h = hash c then Some (serialize_chunk c) else db_get X (''chunk:'' @ h) d)"
  using assms unfolding db_map_def put_chunk_def by simp

lemma fold_put_lookup:
  assumes "db_map X" and "i < length cs"
  shows "\<exists>j. i \<le> j \<and> j < length cs \<and> hash (cs ! j) = hash (cs ! i)
             \<and> db_get X (''chunk:'' @ hash (cs ! i)) (fold (put_chunk X) cs d)
                 = Some (serialize_chunk (cs ! j))"
  using assms(2)
proof (induction cs arbitrary: i rule: rev_induct)
  case Nil
  then show ?case by simp
next
  case (snoc c cs)
  show ?case
  proof (cases "hash c = hash ((cs @ [c]) ! i)")
    case True
    have "db_get X (''chunk:'' @ hash ((cs @ [c]) ! i)) (fold (put_chunk X) (cs @ [c]) d)
            = Some (serialize_chunk ((cs @ [c]) ! length cs))"
      unfolding fold_put_chunk_snoc db_get_put_chunk[OF assms(1)] using True by simp
    moreover have "hash ((cs @ [c]) ! length cs) = hash ((cs @ [c]) ! i)" using True by simp
    moreover have "i \<le> length cs" "length cs < length (cs @ [c])" using snoc.prems by simp_all
    ultimately show ?thesis by blast
  next
    case False
    then have i: "i < length cs" using snoc.prems by (cases "i = length cs") auto
    from snoc.IH[OF i] obtain j where j: "i \<le> j" "j < length cs"
      "hash (cs ! j) = hash (cs ! i)"
      "db_get X (''chunk:'' @ hash (cs ! i)) (fold (put_chunk X) cs d) = Some (serialize_chunk (cs ! j))"
      by blast
    have "db_get X (''chunk:'' @ hash ((cs @ [c]) ! i)) (fold (put_chunk X) (cs @ [c]) d)
            = Some (serialize_chunk ((cs @ [c]) ! j))"
      unfolding fold_put_chunk_snoc db_get_put_chunk[OF assms(1)]
      using False i j by (simp add: nth_append)
    moreover have "hash ((cs @ [c]) ! j) = hash ((cs @ [c]) ! i)"
      using i j by (simp add: nth_append)
    ultimately show ?thesis using j(1,2) by (intro exI[of _ j]) simp
  qed
qed

lemma load_chunk_db: "db st' = db st \<Longrightarrow> load_chunk X h st' = load_chunk X h st"
  by (simp add: load_chunk_def)

lemma retrieve_loop_disk:
  assumes "list_all2 (\<lambda>h x. \<exists>c. load_chunk X h st = Inr (Some c) \<and> \<not> is_encrypted c
                          \<and> decompress X (data c) (original_size c) = Inr x) hs xs"
    and "\<forall>h c. chunks st h = Some c \<longrightarrow> load_chunk X h st = Inr (Some c)"
  shows "fst (retrieve_loop X key hs acc st) = Inr (acc @ concat xs)"
  using assms
proof (induction hs arbitrary: xs acc st)
  case Nil
  then show ?case by simp
next
  case (Cons h hs)
  from Cons.prems(1) obtain x xs' where xs: "xs = x # xs'"
    and hd: "\<exists>c. load_chunk X h st = Inr (Some c) \<and> \<not> is_encrypted c
                          \<and> decompress X (data c) (original_size c) = Inr x"
    and tl: "list_all2 (\<lambda>h x. \<exists>c. load_chunk X h st = Inr (Some c) \<and> \<not> is_encrypted c
                          \<and> decompress X (data c) (original_size c) = Inr x) hs xs'"
    by (auto simp: list_all2_Cons1)
  from hd obtain c where c: "load_chunk X h st = Inr (Some c)" "\<not> is_encrypted c"
    "decompress X (data c) (original_size c) = Inr x" by blast
  define st1 where "st1 = (if chunks st h = None then st\<lparr>chunks := (chunks st)(h \<mapsto> c)\<rparr> else st)"
  have f: "fetch_chunk X h st = (Inr c, st1)"
  proof (cases "chunks st h")
    case None
    then show ?thesis using c(1) by (simp add: fetch_chunk_def get_chunk_def st1_def)
  next
    case (Some c')
    with Cons.prems(2) c(1) have "c' = c" by auto
    with Some show ?thesis by (simp add: fetch_chunk_def get_chunk_def st1_def)
  qed
  have d: "db st1 = db st" by (simp add: st1_def)
  have l: "load_chunk X h' st1 = load_chunk X h' st" for h'
    using d by (rule load_chunk_db)
  have m: "\<forall>h' c'. chunks st1 h' = Some c' \<longrightarrow> load_chunk X h' st1 = Inr (Some c')"
    unfolding l using Cons.prems(2) c(1) by (auto simp: st1_def)
  have t: "list_all2 (\<lambda>h x. \<exists>c. load_chunk X h st1 = Inr (Some c) \<and> \<not> is_encrypted c
                          \<and> decompress X (data c) (original_size c) = Inr x) hs xs'"
    unfolding l using tl .
  have "retrieve_loop X key (h # hs) acc st = retrieve_loop X key hs (acc @ x) st1"
    using f c(2,3) by simp
  then show ?case using Cons.IH[OF t m, of "acc @ x"] xs by simp
qed

lemma made_hash_no_semicolon:
  assumes "made X k payload encrypt key offset c"
  shows "CHR '';'' \<notin> set (hash c)"
  using assms by (simp add: made_def compute_hash_def hex_string_no_semicolon)

lemma offsets_less: "x \<in> set (offsets k n offset) \<Longrightarrow> x < n"
proof (induction k n offset rule: offsets.induct)
  case (1 k n offset)
  show ?case
  proof (cases "offset < n \<and> 0 < k")
    case True
    then have "offsets k n offset = offset # offsets k n (offset + k)" by (simp add: offsets_step)
    with "1.prems" have "x = offset \<or> x \<in> set (offsets k n (offset + k))" by simp
    with True "1.IH" show ?thesis by auto
  next
    case False
    then have "offsets k n offset = []" by (rule offsets_done)
    with "1.prems" show ?thesis by simp
  qed
qed

lemma made_same_hash:
  assumes m: "list_all2 (made X k payload False key) (offsets k (length payload) 0) cs"
    and z: "zstd_inverse X" and n: "no_collision X k payload"
    and i: "i < length cs" and j: "j < length cs" and h: "hash (cs ! j) = hash (cs ! i)"
  shows "\<not> is_encrypted (cs ! j)
       \<and> decompress X (data (cs ! j)) (original_size (cs ! j)) = Inr (payload_slices k payload ! i)"
proof -
  let ?offs = "offsets k (length payload) 0"
  have len: "length cs = length ?offs" using m by (simp add: list_all2_lengthD)
  have mi: "made X k payload False key (?offs ! i) (cs ! i)"
    using m i len by (simp add: list_all2_nthD2)
  have mj: "made X k payload False key (?offs ! j) (cs ! j)"
    using m j len by (simp add: list_all2_nthD2)
  from mi obtain ci where ci: "zstd_compress X (chunk_slice k payload (?offs ! i)) = Some ci"
    "data (cs ! i) = ci" "hash (cs ! i) = compute_hash X ci"
    by (auto simp: made_def)
  from mj obtain cj where cj: "zstd_compress X (chunk_slice k payload (?offs ! j)) = Some cj"
    "data (cs ! j) = cj" "hash (cs ! j) = compute_hash X cj"
    "\<not> is_encrypted (cs ! j)"
    "original_size (cs ! j) = min k (length payload - ?offs ! j)"
    by (auto simp: made_def)
  have si: "chunk_slice k payload (?offs ! i) \<in> set (payload_slices k payload)"
    using i len by (simp add: payload_slices_def)
  have sj: "chunk_slice k payload (?offs ! j) \<in> set (payload_slices k payload)"
    using j len by (simp add: payload_slices_def)
  have eq: "chunk_slice k payload (?offs ! j) = chunk_slice k payload (?offs ! i)"
    using n si sj ci(1,3) cj(1,3) h unfolding no_collision_def by metis
  have "decompress X cj (length (chunk_slice k payload (?offs ! j)))
          = Inr (chunk_slice k payload (?offs ! j))"
    using z cj(1) by (rule decompress_inverse)
  then have "decompress X (data (cs ! j)) (original_size (cs ! j))
          = Inr (chunk_slice k payload (?offs ! j))"
    unfolding cj(2,5) length_chunk_slice .
  then have "decompress X (data (cs ! j)) (original_size (cs ! j))
          = Inr (payload_slices k payload ! i)"
    unfolding eq using i len by (simp add: payload_slices_def)
  with cj(4) show ?thesis by simp
qed

lemma made_record_sizes:
  assumes m: "list_all2 (made X k payload False key) (offsets k (length payload) 0) cs"
    and r: "record_sizes X k payload" and j: "j < length cs"
  shows "original_size (cs ! j) < 2 ^ 64 \<and> index (cs ! j) < 2 ^ 64 \<and> length (data (cs ! j)) < 2 ^ 32"
proof -
  let ?offs = "offsets k (length payload) 0"
  have len: "length cs = length ?offs" using m by (simp add: list_all2_lengthD)
  have mj: "made X k payload False key (?offs ! j) (cs ! j)"
    using m j len by (simp add: list_all2_nthD2)
  have L: "length payload < 2 ^ 64" using r by (simp add: record_sizes_def)
  have o: "?offs ! j < length payload" using j len by (intro offsets_less[of _ k _ 0]) simp
  from mj have os: "original_size (cs ! j) = min k (length payload - ?offs ! j)"
    and ix: "index (cs ! j) = ?offs ! j div k"
    and d: "zstd_compress X (chunk_slice k payload (?offs ! j)) = Some (data (cs ! j))"
    by (auto simp: made_def)
  have "original_size (cs ! j) \<le> length payload" unfolding os by simp
  then have a: "original_size (cs ! j) < 2 ^ 64" using L by simp
  have "index (cs ! j) \<le> ?offs ! j" unfolding ix by (rule div_le_dividend)
  then have b: "index (cs ! j) < 2 ^ 64" using o L by simp
  have "chunk_slice k payload (?offs ! j) \<in> set (payload_slices k payload)"
    using j len by (simp add: payload_slices_def)
  with r d have c: "length (data (cs ! j)) < 2 ^ 32" unfolding record_sizes_def by blast
  from a b c show ?thesis by simp
qed

lemma retrieve_reopened:
  assumes s: "store X payload content_id False st = (Inr hs, st')"
    and z: "zstd_inverse X" and n: "no_collision X (chunk_size st) payload"
    and dm: "db_map X" and rs: "record_sizes X (chunk_size st) payload" and ne: "[] \<notin> set hs"
    and r: "32 \<le> length r" and p: "pbkdf2 X content_id (take 32 r) \<noteq> None"
  shows "fst (retrieve X content_id (reopen k r st')) = Inr payload"
proof -
  let ?k = "chunk_size st"
  let ?offs = "offsets ?k (length payload) 0"
  from store_db[OF s] obtain cs key where cs: "hs = map hash cs"
    "list_all2 (made X ?k payload False key) ?offs cs"
    "\<forall>c \<in> set cs. iv c = [] \<and> tag c = []"
    "db st' = fst (db_put X (''content_map:'' @ content_id) (mapping_value hs)
                     (fold (put_chunk X) cs (db st)))"
    by auto
  let ?D = "fold (put_chunk X) cs (db st)"
  have len: "length cs = length ?offs" using cs(2) by (simp add: list_all2_lengthD)
  have gm: "db_get X (''content_map:'' @ content_id) (db st') = Some (mapping_value hs)"
    unfolding cs(4) using dm by (simp add: db_map_def)
  have gc: "db_get X (''chunk:'' @ h) (db st') = db_get X (''chunk:'' @ h) ?D" for h
  proof -
    have "''chunk:'' @ h \<noteq> ''content_map:'' @ content_id" by simp
    then show ?thesis unfolding cs(4) using dm unfolding db_map_def by blast
  qed
  have tok: "\<forall>h \<in> set hs. h \<noteq> [] \<and> CHR '';'' \<notin> set h"
  proof
    fix h assume h: "h \<in> set hs"
    then obtain i where i: "i < length cs" "h = hash (cs ! i)"
      unfolding cs(1) by (auto simp: in_set_conv_nth)
    have "made X ?k payload False key (?offs ! i) (cs ! i)"
      using cs(2) i(1) len by (simp add: list_all2_nthD2)
    then have "CHR '';'' \<notin> set h" unfolding i(2) by (rule made_hash_no_semicolon)
    moreover have "h \<noteq> []" using h ne by auto
    ultimately show "h \<noteq> [] \<and> CHR '';'' \<notin> set h" by simp
  qed
  have pm: "parse_mapping (mapping_value hs) = hs" using tok by (rule parse_mapping_value)
  from p obtain key' where key': "pbkdf2 X content_id (take 32 r) = Some key'" by blast
  define st2 where "st2 = (reopen k r st')\<lparr>content_map := [content_id \<mapsto> hs], rng := drop 32 r\<rparr>"
  have ret: "retrieve X content_id (reopen k r st') = retrieve_loop X key' hs [] st2"
    using gm pm r key'
    by (simp add: retrieve_def resolve_hashes_def reopen_def generate_random_def
        derive_key_def st2_def)
  have d2: "db st2 = db st'" and c2: "chunks st2 = Map.empty"
    by (simp_all add: st2_def reopen_def)
  have rd: "list_all2 (\<lambda>h x. \<exists>c. load_chunk X h st2 = Inr (Some c) \<and> \<not> is_encrypted c
                          \<and> decompress X (data c) (original_size c) = Inr x)
              hs (payload_slices ?k payload)"
  proof (rule list_all2_all_nthI)
    show "length hs = length (payload_slices ?k payload)"
      using cs(1) len by (simp add: payload_slices_def)
  next
    fix i assume "i < length hs"
    then have i: "i < length cs" using cs(1) by simp
    from fold_put_lookup[OF dm i, of "db st"] obtain j where j: "j < length cs"
      "hash (cs ! j) = hash (cs ! i)"
      "db_get X (''chunk:'' @ hash (cs ! i)) ?D = Some (serialize_chunk (cs ! j))"
      by auto
    have ivt: "iv (cs ! j) = []" "tag (cs ! j) = []" using cs(3) j(1) by simp_all
    from made_record_sizes[OF cs(2) rs j(1)]
    have "parse_chunk (hash (cs ! i)) (serialize_chunk (cs ! j)) = Some ((cs ! j)\<lparr>hash := hash (cs ! i)\<rparr>)"
      using ivt by (intro parse_chunk_serialize) simp_all
    also have "(cs ! j)\<lparr>hash := hash (cs ! i)\<rparr> = cs ! j" using j(2) by (cases "cs ! j") simp
    finally have pc: "parse_chunk (hash (cs ! i)) (serialize_chunk (cs ! j)) = Some (cs ! j)" .
    have g: "db_get X (''chunk:'' @ hash (cs ! i)) (db st') = Some (serialize_chunk (cs ! j))"
      unfolding gc by (rule j(3))
    have "load_chunk X (hash (cs ! i)) st2 = Inr (Some (cs ! j))"
      unfolding load_chunk_def d2 g by (simp add: pc)
    then have "load_chunk X (hs ! i) st2 = Inr (Some (cs ! j))"
      using i cs(1) by simp
    with made_same_hash[OF cs(2) z n i j(1) j(2)]
    show "\<exists>c. load_chunk X (hs ! i) st2 = Inr (Some c) \<and> \<not> is_encrypted c
          \<and> decompress X (data c) (original_size c) = Inr (payload_slices ?k payload ! i)"
      by blast
  qed
  have "fst (retrieve_loop X key' hs [] st2) = Inr ([] @ concat (payload_slices ?k payload))"
    using rd by (rule retrieve_loop_disk) (simp add: c2)
  then show ?thesis
    unfolding ret using concat_payload_slices[OF store_Inr_pos[OF s]] by simp
qed

lemma db_map_sample: "db_map sample_externals"
  by (simp add: db_map_def sample_externals_def)

lemma record_sizes_sample: "record_sizes sample_externals 2 [1, 2, 3]"
  unfolding record_sizes_def payload_slices_sample
  by (auto simp: sample_externals_def)

subsection \<open>Reading back on the same store\<close>

lemma retrieve_same_store:
  assumes "store X payload content_id False st = (Inr hs, st')"
    and "zstd_inverse X" and "no_collision X (chunk_size st) payload"
    and "32 \<le> length (rng st')" and "pbkdf2 X content_id (take 32 (rng st')) \<noteq> None"
  shows "fst (retrieve X content_id st') = Inr payload"
proof -
  let ?k = "chunk_size st"
  let ?offs = "offsets ?k (length payload) 0"
  from store_Inr[OF assms(1)] obtain cs key where cs: "hs = map hash cs"
    "list_all2 (made X ?k payload False key) ?offs cs"
    "chunks st' = fold ins cs (chunks st)"
    "content_map st' = (content_map st)(content_id \<mapsto> hs)"
    by blast
  from assms(5) obtain key' where key': "pbkdf2 X content_id (take 32 (rng st')) = Some key'"
    by blast
  let ?st = "st'\<lparr>rng := drop 32 (rng st')\<rparr>"
  have len: "length cs = length ?offs" using cs(2) by (simp add: list_all2_lengthD)
  have rd: "list_all2 (\<lambda>h x. \<exists>c. chunks ?st h = Some c \<and> \<not> is_encrypted c
                          \<and> decompress X (data c) (original_size c) = Inr x)
              hs (payload_slices ?k payload)"
  proof (rule list_all2_all_nthI)
    show "length hs = length (payload_slices ?k payload)"
      using cs(1) len by (simp add: payload_slices_def)
  next
    fix i assume "i < length hs"
    then have i: "i < length cs" using cs(1) by simp
    from fold_ins_lookup[OF i, of "chunks st"] obtain j where j: "j < length cs"
      "hash (cs ! j) = hash (cs ! i)" "chunks st' (hash (cs ! i)) = Some (cs ! j)"
      using cs(3) by auto
    have mi: "made X ?k payload False key (?offs ! i) (cs ! i)"
      using cs(2) i len by (simp add: list_all2_nthD2)
    have mj: "made X ?k payload False key (?offs ! j) (cs ! j)"
      using cs(2) j(1) len by (simp add: list_all2_nthD2)
    from mi obtain ci where ci: "zstd_compress X (chunk_slice ?k payload (?offs ! i)) = Some ci"
      "data (cs ! i) = ci" "hash (cs ! i) = compute_hash X ci"
      by (auto simp: made_def)
    from mj obtain cj where cj: "zstd_compress X (chunk_slice ?k payload (?offs ! j)) = Some cj"
      "data (cs ! j) = cj" "hash (cs ! j) = compute_hash X cj"
      "\<not> is_encrypted (cs ! j)"
      "original_size (cs ! j) = min ?k (length payload - ?offs ! j)"
      by (auto simp: made_def)
    have si: "chunk_slice ?k payload (?offs ! i) \<in> set (payload_slices ?k payload)"
      using i len by (simp add: payload_slices_def)
    have sj: "chunk_slice ?k payload (?offs ! j) \<in> set (payload_slices ?k payload)"
      using j(1) len by (simp add: payload_slices_def)
    have eq: "chunk_slice ?k payload (?offs ! j) = chunk_slice ?k payload (?offs ! i)"
      using assms(3) si sj ci(1,3) cj(1,3) j(2) unfolding no_collision_def by metis
    have "decompress X cj (length (chunk_slice ?k payload (?offs ! j)))
            = Inr (chunk_slice ?k payload (?offs ! j))"
      using assms(2) cj(1) by (rule decompress_inverse)
    then have "decompress X (data (cs ! j)) (original_size (cs ! j))
            = Inr (chunk_slice ?k payload (?offs ! j))"
      unfolding cj(2,5) length_chunk_slice .
    then have "decompress X (data (cs ! j)) (original_size (cs ! j))
            = Inr (payload_slices ?k payload ! i)"
      unfolding eq using i len by (simp add: payload_slices_def)
    moreover have "chunks ?st (hs ! i) = Some (cs ! j)" using j(3) cs(1) i by simp
    ultimately show "\<exists>c. chunks ?st (hs ! i) = Some c \<and> \<not> is_encrypted c
          \<and> decompress X (data c) (original_size c) = Inr (payload_slices ?k payload ! i)"
      using cj(4) by blast
  qed
  have "content_map st' content_id = Some hs" using cs(4) by simp
  from retrieve_cached[OF this assms(4) key']
  have "retrieve X content_id st' = retrieve_loop X key' hs [] ?st" .
  also have "\<dots> = (Inr ([] @ concat (payload_slices ?k payload)), ?st)"
    using rd by (rule retrieve_loop_plain)
  finally show ?thesis
    using concat_payload_slices[OF store_Inr_pos[OF assms(1)]] by simp
qed

subsection \<open>Round trip without encryption\<close>

text \<open>
  Claim C3. For every payload and content identifier, \<^verbatim>\<open>store(P, C, false)\<close> followed by
  \<^verbatim>\<open>retrieve(C)\<close> on the same store returns the payload byte for byte; and so does
  \<^verbatim>\<open>retrieve(C)\<close> on a store constructed anew on the same database, which reads the
  semicolon-joined hash list under \<^verbatim>\<open>content_map:C\<close> and every chunk record under
  \<^verbatim>\<open>chunk:hash\<close> back from the database. The libraries are assumed to behave:
  decompression inverts compression, distinct chunks of the payload have distinct
  digests, and the random source and the key derivation that \<^verbatim>\<open>retrieve\<close> calls before
  it reads any chunk do not fail; for the reopened store also that the database is a
  map, that the sizes fit the fields of the chunk record, and that no digest is the
  empty string.
\<close>

theorem plain_round_trip:
  assumes "store X payload content_id False st = (Inr hs, st')"
    and "zstd_inverse X" and "no_collision X (chunk_size st) payload"
    and "32 \<le> length (rng st')" and "pbkdf2 X content_id (take 32 (rng st')) \<noteq> None"
  shows "fst (retrieve X content_id st') = Inr payload
       \<and> (db_map X \<and> record_sizes X (chunk_size st) payload \<and> [] \<notin> set hs
            \<and> 32 \<le> length r \<and> pbkdf2 X content_id (take 32 r) \<noteq> None
          \<longrightarrow> fst (retrieve X content_id (reopen k r st')) = Inr payload)"
  using retrieve_same_store[OF assms] retrieve_reopened[OF assms(1-3)] by blast

theorem plain_round_trip_witness:
  "store sample_externals [1, 2, 3] ''doc1'' False sample_store
     = (Inr [''070102'', ''0703''],
        snd (store sample_externals [1, 2, 3] ''doc1'' False sample_store))
   \<and> zstd_inverse sample_externals
   \<and> no_collision sample_externals (chunk_size sample_store) [1, 2, 3]
   \<and> 32 \<le> length (rng (snd (store sample_externals [1, 2, 3] ''doc1'' False sample_store)))
   \<and> pbkdf2 sample_externals ''doc1''
        (take 32 (rng (snd (store sample_externals [1, 2, 3] ''doc1'' False sample_store)))) \<noteq> None
   \<and> fst (retrieve sample_externals ''doc1''
        (snd (store sample_externals [1, 2, 3] ''doc1'' False sample_store))) = Inr [1, 2, 3]
   \<and> db_map sample_externals
   \<and> record_sizes sample_externals (chunk_size sample_store) [1, 2, 3]
   \<and> [] \<notin> set [''070102'', ''0703'']
   \<and> 32 \<le> length (replicate 32 (0 :: byte))
   \<and> pbkdf2 sample_externals ''doc1'' (take 32 (replicate 32 0)) \<noteq> None
   \<and> fst (retrieve sample_externals ''doc1''
        (reopen 4 (replicate 32 0)
           (snd (store sample_externals [1, 2, 3] ''doc1'' False sample_store)))) = Inr [1, 2, 3]"
proof -
  let ?r = "store sample_externals [1, 2, 3] ''doc1'' False sample_store"
  have "fst ?r = Inr [''070102'', ''0703'']" by (simp add: sample_eval)
  then have s: "?r = (Inr [''070102'', ''0703''], snd ?r)" by (metis prod.collapse)
  have n: "no_collision sample_externals (chunk_size sample_store) [1, 2, 3]"
    using no_collision_sample by (simp add: sample_store_def)
  have l: "32 \<le> length (rng (snd ?r))" by (simp add: sample_eval)
  have p: "pbkdf2 sample_externals ''doc1'' (take 32 (rng (snd ?r))) \<noteq> None"
    by (simp add: sample_externals_def)
  have z: "record_sizes sample_externals (chunk_size sample_store) [1, 2, 3]"
    using record_sizes_sample by (simp add: sample_store_def)
  have e: "[] \<notin> set [''070102'', ''0703'']" by simp
  have l': "32 \<le> length (replicate 32 (0 :: byte))" by simp
  have p': "pbkdf2 sample_externals ''doc1'' (take 32 (replicate 32 0)) \<noteq> None"
    by (simp add: sample_externals_def)
  from plain_round_trip [OF s zstd_inverse_sample n l p, of "replicate 32 0" 4]
    s zstd_inverse_sample n l p db_map_sample z e l' p'
  show ?thesis by blast
qed

subsection \<open>Content addressing without encryption\<close>

text \<open>
  Claim C4. Any two calls \<^verbatim>\<open>store(P, C, false)\<close> that return, on stores of the same chunk
  size, return the same hash sequence, whatever the random sources deliver and so
  whatever the salts and the derived keys are.
\<close>

theorem store_plain_deterministic:
  assumes "store X payload content_id False st1 = (Inr hs1, st1')"
    and "store X payload content_id False st2 = (Inr hs2, st2')"
    and "chunk_size st1 = chunk_size st2"
  shows "hs1 = hs2"
  using store_plain_hashes[OF assms(1)] store_plain_hashes[OF assms(2)] assms(3) by simp

theorem store_plain_deterministic_witness:
  "fst (store sample_externals [1, 2, 3] ''doc1'' False sample_store) = Inr [''070102'', ''0703'']
   \<and> chunk_size sample_store = chunk_size (sample_store\<lparr>rng := replicate 32 9\<rparr>)
   \<and> fst (store sample_externals [1, 2, 3] ''doc1'' False (sample_store\<lparr>rng := replicate 32 9\<rparr>))
       = Inr [''070102'', ''0703'']"
proof -
  let ?r1 = "store sample_externals [1, 2, 3] ''doc1'' False sample_store"
  let ?r2 = "store sample_externals [1, 2, 3] ''doc1'' False (sample_store\<lparr>rng := replicate 32 9\<rparr>)"
  have f1: "fst ?r1 = Inr [''070102'', ''0703'']" by (simp add: sample_eval)
  then have s1: "?r1 = (Inr [''070102'', ''0703''], snd ?r1)" by (metis prod.collapse)
  obtain hs2 where f2: "fst ?r2 = Inr hs2" by (simp add: sample_eval)
  then have s2: "?r2 = (Inr hs2, snd ?r2)" by (metis prod.collapse)
  have c: "chunk_size sample_store = chunk_size (sample_store\<lparr>rng := replicate 32 9\<rparr>)" by simp
  from store_plain_deterministic [OF s1 s2 c] have "hs2 = [''070102'', ''0703'']" by simp
  with f1 f2 c show ?thesis by blast
qed

subsection \<open>Chunk boundaries\<close>

text \<open>
  Claim C9. For a payload of length \<open>L\<close> stored with chunk size \<open>k > 0\<close>, \<^verbatim>\<open>store\<close> returns
  \<open>\<lceil>L / k\<rceil>\<close> hashes, the hashes of chunks \<open>cs\<close> such that chunk \<open>i\<close> has index \<open>i\<close>,
  its \<open>original_size\<close> is \<open>k\<close> for all but the last chunk, and is \<open>L mod k\<close> (or \<open>k\<close> when
  \<open>L\<close> is a multiple of \<open>k\<close>) for the last. Chunk \<open>i\<close> is the one found under its hash in
  the store, unless a later chunk of the payload has the same hash and replaced it.
\<close>

theorem store_chunk_boundaries:
  assumes "store X payload content_id encrypt st = (Inr hs, st')" and "0 < chunk_size st"
  shows "length hs = (length payload + chunk_size st - 1) div chunk_size st
       \<and> (\<exists>cs. hs = map hash cs \<and> (\<forall>i < length cs.
             index (cs ! i) = i
           \<and> original_size (cs ! i) =
               (if Suc i < length cs then chunk_size st
                else if length payload mod chunk_size st = 0 then chunk_size st
                else length payload mod chunk_size st)
           \<and> (chunks st' (hs ! i) = Some (cs ! i)
                \<or> (\<exists>j. i < j \<and> j < length cs \<and> hs ! j = hs ! i))))"
proof -
  let ?k = "chunk_size st" and ?n = "length payload"
  let ?offs = "offsets ?k ?n 0"
  from store_Inr[OF assms(1)] obtain cs key where cs: "hs = map hash cs"
    "list_all2 (made X ?k payload encrypt key) ?offs cs"
    "chunks st' = fold ins cs (chunks st)"
    by blast
  have len: "length cs = (?n + ?k - 1) div ?k"
    using cs(2) assms(2) by (simp add: list_all2_lengthD[symmetric] length_offsets)
  have main: "index (cs ! i) = i
      \<and> original_size (cs ! i) =
          (if Suc i < length cs then ?k else if ?n mod ?k = 0 then ?k else ?n mod ?k)
      \<and> (chunks st' (hs ! i) = Some (cs ! i) \<or> (\<exists>j. i < j \<and> j < length cs \<and> hs ! j = hs ! i))"
    if i: "i < length cs" for i
  proof -
    have o: "?offs ! i = i * ?k" using i len assms(2) by (simp add: nth_offsets)
    have "made X ?k payload encrypt key (?offs ! i) (cs ! i)"
      using cs(2) i by (simp add: list_all2_nthD2)
    then have ix: "index (cs ! i) = i" and sz: "original_size (cs ! i) = min ?k (?n - i * ?k)"
      using assms(2) unfolding o by (simp_all add: made_def)
    have sz': "original_size (cs ! i) =
          (if Suc i < length cs then ?k else if ?n mod ?k = 0 then ?k else ?n mod ?k)"
    proof (cases "Suc i < length cs")
      case True
      then have "Suc i * ?k < ?n" using ceil_div_inner[OF assms(2)] len by simp
      then have "?k \<le> ?n - i * ?k" by simp
      with True sz show ?thesis by simp
    next
      case False
      with i have "Suc i = (?n + ?k - 1) div ?k" using len by simp
      from ceil_div_last[OF assms(2) this] False sz show ?thesis by simp
    qed
    from fold_ins_lookup[OF i, of "chunks st"] obtain j where j: "i \<le> j" "j < length cs"
      "hash (cs ! j) = hash (cs ! i)" "chunks st' (hash (cs ! i)) = Some (cs ! j)"
      using cs(3) by auto
    have "chunks st' (hs ! i) = Some (cs ! i) \<or> (\<exists>j. i < j \<and> j < length cs \<and> hs ! j = hs ! i)"
    proof (cases "j = i")
      case True
      with j(4) cs(1) i show ?thesis by simp
    next
      case False
      with j(1) have "i < j" by simp
      moreover have "hs ! j = hs ! i" using j(2,3) i cs(1) by simp
      ultimately show ?thesis using j(2) by blast
    qed
    with ix sz' show ?thesis by blast
  qed
  have "length hs = (?n + ?k - 1) div ?k" using cs(1) len by simp
  moreover have "hs = map hash cs \<and> (\<forall>i < length cs.
             index (cs ! i) = i
           \<and> original_size (cs ! i) =
               (if Suc i < length cs then ?k
                else if ?n mod ?k = 0 then ?k else ?n mod ?k)
           \<and> (chunks st' (hs ! i) = Some (cs ! i)
                \<or> (\<exists>j. i < j \<and> j < length cs \<and> hs ! j = hs ! i)))"
    using cs(1) main by blast
  ultimately show ?thesis by blast
qed

theorem store_chunk_boundaries_witness:
  "fst (store sample_externals [1, 2, 3] ''doc1'' True sample_store) = Inr [''070102'', ''0703'']
   \<and> 0 < chunk_size sample_store
   \<and> length [''070102'', ''0703''] = (length [1, 2, 3 :: byte] + chunk_size sample_store - 1)
        div chunk_size sample_store"
proof -
  let ?r = "store sample_externals [1, 2, 3] ''doc1'' True sample_store"
  have f: "fst ?r = Inr [''070102'', ''0703'']" by (simp add: sample_eval)
  then have s: "?r = (Inr [''070102'', ''0703''], snd ?r)" by (metis prod.collapse)
  have k: "0 < chunk_size sample_store" by (simp add: sample_store_def)
  from store_chunk_boundaries [OF s k] f k show ?thesis by blast
qed

subsection \<open>The empty payload\<close>

text \<open>
  Claim C10. Whenever \<^verbatim>\<open>store\<close> of an empty payload returns, it returns the empty hash
  list and records the content identifier with the empty list, and a following
  \<^verbatim>\<open>retrieve\<close> does not fail with the not-found error. And when the random source has
  the two salts and the two key derivations succeed, \<^verbatim>\<open>store\<close> does return and the
  following \<^verbatim>\<open>retrieve\<close> returns the empty payload.
\<close>

theorem empty_payload_round_trip:
  "(\<forall>hs st'. store X [] content_id encrypt st = (Inr hs, st') \<longrightarrow>
       hs = [] \<and> content_map st' content_id = Some []
       \<and> fst (retrieve X content_id st') \<noteq> Inl Content_Not_Found)
   \<and> (64 \<le> length (rng st) \<and> pbkdf2 X content_id (take 32 (rng st)) \<noteq> None
        \<and> pbkdf2 X content_id (take 32 (drop 32 (rng st))) \<noteq> None \<longrightarrow>
       (\<exists>st'. store X [] content_id encrypt st = (Inr [], st')
          \<and> content_map st' content_id = Some []
          \<and> fst (retrieve X content_id st') = Inr []))"
proof (intro conjI allI impI)
  fix hs st'
  assume s: "store X [] content_id encrypt st = (Inr hs, st')"
  from store_Inr[OF s] obtain cs key where cs: "hs = map hash cs"
    "list_all2 (made X (chunk_size st) [] encrypt key) (offsets (chunk_size st) (length ([]::bytes)) 0) cs"
    "content_map st' = (content_map st)(content_id \<mapsto> hs)"
    by blast
  from cs(2) have "cs = []" by (simp add: offsets_done)
  with cs(1) show hs: "hs = []" by simp
  with cs(3) show m: "content_map st' content_id = Some []" by simp
  show "fst (retrieve X content_id st') \<noteq> Inl Content_Not_Found"
    using m
    by (simp add: retrieve_def resolve_hashes_def generate_random_def derive_key_def
             split: option.splits)
next
  assume a: "64 \<le> length (rng st) \<and> pbkdf2 X content_id (take 32 (rng st)) \<noteq> None
        \<and> pbkdf2 X content_id (take 32 (drop 32 (rng st))) \<noteq> None"
  then obtain key key' where k: "pbkdf2 X content_id (take 32 (rng st)) = Some key"
    "pbkdf2 X content_id (take 32 (drop 32 (rng st))) = Some key'" by blast
  let ?st = "st\<lparr>rng := drop 32 (rng st),
                 content_map := (content_map st)(content_id \<mapsto> []),
                 db := fst (db_put X (''content_map:'' @ content_id) (mapping_value []) (db st))\<rparr>"
  from a have l0: "64 \<le> length (rng st)" by blast
  then have l1: "32 \<le> length (rng st)" by linarith
  from l0 have "32 \<le> length (rng st) - 32" by linarith
  then have l2: "32 \<le> length (rng ?st)" by simp
  have s: "store X [] content_id encrypt st = (Inr [], ?st)"
    using l1 k(1) by (rule store_empty)
  have "retrieve X content_id ?st = retrieve_loop X key' [] [] (?st\<lparr>rng := drop 32 (rng ?st)\<rparr>)"
    using _ l2 by (rule retrieve_cached) (simp_all add: k(2))
  then have "fst (retrieve X content_id ?st) = Inr []" by simp
  with s show "\<exists>st'. store X [] content_id encrypt st = (Inr [], st')
          \<and> content_map st' content_id = Some []
          \<and> fst (retrieve X content_id st') = Inr []"
    by (intro exI[of _ ?st]) simp
qed

theorem empty_payload_round_trip_witness:
  "64 \<le> length (rng sample_store)
   \<and> pbkdf2 sample_externals ''doc1'' (take 32 (rng sample_store)) \<noteq> None
   \<and> pbkdf2 sample_externals ''doc1'' (take 32 (drop 32 (rng sample_store))) \<noteq> None
   \<and> fst (store sample_externals [] ''doc1'' True sample_store) = Inr []
   \<and> content_map (snd (store sample_externals [] ''doc1'' True sample_store)) ''doc1'' = Some []
   \<and> fst (retrieve sample_externals ''doc1''
            (snd (store sample_externals [] ''doc1'' True sample_store))) = Inr []"
proof -
  have a: "64 \<le> length (rng sample_store)
     \<and> pbkdf2 sample_externals ''doc1'' (take 32 (rng sample_store)) \<noteq> None
     \<and> pbkdf2 sample_externals ''doc1'' (take 32 (drop 32 (rng sample_store))) \<noteq> None"
    by (simp add: sample_store_def sample_externals_def)
  with empty_payload_round_trip [of sample_externals "''doc1''" True sample_store]
  obtain st' where "store sample_externals [] ''doc1'' True sample_store = (Inr [], st')"
    "content_map st' ''doc1'' = Some []" "fst (retrieve sample_externals ''doc1'' st') = Inr []"
    by blast
  with a show ?thesis by simp
qed

subsection \<open>Round trip with encryption\<close>

text \<open>
  Claim C1 holds of the specification and not of the code. \<^verbatim>\<open>retrieve\<close> draws a fresh
  random salt and derives its key from it, instead of using the salt of \<^verbatim>\<open>store\<close>, which
  is kept nowhere. For every non-empty payload stored with encryption: when the key that
  \<^verbatim>\<open>retrieve\<close> derives is not the key of \<^verbatim>\<open>store\<close>, and AES-GCM rejects a ciphertext and
  tag under another key, \<^verbatim>\<open>retrieve\<close> fails on the first chunk with the authentication
  error.
\<close>

theorem encrypted_retrieve_fails:
  assumes "store X payload content_id True st = (Inr hs, st')" and "payload \<noteq> []"
    and "gcm_authentic X"
    and "32 \<le> length (rng st')"
    and "pbkdf2 X content_id (take 32 (rng st')) = Some key'"
    and "pbkdf2 X content_id (take 32 (rng st)) \<noteq> Some key'"
  shows "fst (retrieve X content_id st') = Inl Authentication_Failed"
proof -
  let ?k = "chunk_size st"
  let ?offs = "offsets ?k (length payload) 0"
  from store_Inr[OF assms(1)] obtain cs key where cs:
    "pbkdf2 X content_id (take 32 (rng st)) = Some key" "hs = map hash cs"
    "list_all2 (made X ?k payload True key) ?offs cs"
    "chunks st' = fold ins cs (chunks st)"
    "content_map st' = (content_map st)(content_id \<mapsto> hs)"
    by blast
  have kk: "key' \<noteq> key" using cs(1) assms(6) by auto
  have k: "0 < ?k" using store_Inr_pos[OF assms(1)] assms(2) by simp
  have "?offs \<noteq> []" using k assms(2) by (simp add: offsets_step)
  then have ne: "cs \<noteq> []" using cs(3) by auto
  then obtain c0 cs' where c0: "cs = c0 # cs'" by (cases cs) auto
  have i: "0 < length cs" using ne by simp
  from fold_ins_lookup[OF i, of "chunks st"] obtain j where j: "j < length cs"
    "chunks st' (hash c0) = Some (cs ! j)"
    using cs(4) c0 by auto
  have "made X ?k payload True key (?offs ! j) (cs ! j)"
    using cs(3) j(1) by (simp add: list_all2_nthD2)
  then obtain compressed where e: "is_encrypted (cs ! j)"
    "gcm_encrypt X key (iv (cs ! j)) compressed = Some (data (cs ! j), tag (cs ! j))"
    by (auto simp: made_def)
  from assms(3) e(2) kk
  have d: "gcm_decrypt X key' (iv (cs ! j)) (data (cs ! j)) (tag (cs ! j)) = None"
    unfolding gcm_authentic_def by blast
  let ?st = "st'\<lparr>rng := drop 32 (rng st')\<rparr>"
  have m: "content_map st' content_id = Some hs" using cs(5) by simp
  have f: "fetch_chunk X (hash c0) ?st = (Inr (cs ! j), ?st)"
    using j(2) by (simp add: fetch_chunk_def get_chunk_def)
  have "retrieve X content_id st' = retrieve_loop X key' hs [] ?st"
    by (rule retrieve_cached[OF m assms(4,5)])
  also have "hs = hash c0 # map hash cs'" using cs(2) c0 by simp
  also have "fst (retrieve_loop X key' (hash c0 # map hash cs') [] ?st) = Inl Authentication_Failed"
    using f e(1) d by (simp add: aes_gcm_decrypt_def)
  finally show ?thesis .
qed

theorem encrypted_retrieve_fails_witness:
  "fst (store sample_externals [1, 2, 3] ''doc1'' True sample_store) = Inr [''070102'', ''0703'']
   \<and> gcm_authentic sample_externals
   \<and> 32 \<le> length (rng (snd (store sample_externals [1, 2, 3] ''doc1'' True sample_store)))
   \<and> pbkdf2 sample_externals ''doc1''
        (take 32 (rng (snd (store sample_externals [1, 2, 3] ''doc1'' True sample_store))))
       = Some (replicate 32 3)
   \<and> pbkdf2 sample_externals ''doc1'' (take 32 (rng sample_store)) \<noteq> Some (replicate 32 3)
   \<and> fst (retrieve sample_externals ''doc1''
        (snd (store sample_externals [1, 2, 3] ''doc1'' True sample_store)))
       = Inl Authentication_Failed"
proof -
  let ?r = "store sample_externals [1, 2, 3] ''doc1'' True sample_store"
  have f: "fst ?r = Inr [''070102'', ''0703'']" by (simp add: sample_eval)
  then have s: "?r = (Inr [''070102'', ''0703''], snd ?r)" by (metis prod.collapse)
  have ne: "[1, 2, 3 :: byte] \<noteq> []" by simp
  have l: "32 \<le> length (rng (snd ?r))" by (simp add: sample_eval)
  have p': "pbkdf2 sample_externals ''doc1'' (take 32 (rng (snd ?r))) = Some (replicate 32 3)"
    by (simp add: sample_eval)
  have d: "pbkdf2 sample_externals ''doc1'' (take 32 (rng sample_store)) \<noteq> Some (replicate 32 3)"
    by (simp add: sample_store_def sample_externals_def)
  from encrypted_retrieve_fails [OF s ne gcm_authentic_sample l p' d] f l p' d gcm_authentic_sample
  show ?thesis by blast
qed


section \<open>Properties of the route search\<close>

subsection \<open>Rounding is monotone and leaves a binary32 value as it is\<close>

lemma float32_order [simp]:
  "Finite a \<le> Finite b \<longleftrightarrow> a \<le> b"
  "Finite a < Finite b \<longleftrightarrow> a < b"
  "Finite a \<le> PInfinity" "Finite a < PInfinity"
  "\<not> PInfinity \<le> Finite a" "\<not> PInfinity < Finite a"
  "NInfinity \<le> x" "\<not> x < NInfinity"
  "x \<le> NaN" "\<not> NaN < x"
  "\<not> Finite a \<le> NInfinity" "NInfinity < Finite a" "NInfinity < PInfinity"
  "\<not> PInfinity \<le> NInfinity" "PInfinity < NaN" "\<not> NaN \<le> PInfinity"
  "Finite a < NaN" "\<not> NaN \<le> Finite a"
  by (cases x; simp add: less_eq_float32_def less_float32_def)+

lemma ilog2_bounds:
  "1 \<le> n \<Longrightarrow> 0 \<le> ilog2 n \<and> 2 ^ nat (ilog2 n) \<le> n \<and> n < 2 ^ (nat (ilog2 n) + 1)"
proof (induction n rule: ilog2.induct)
  case (1 n)
  show ?case
  proof (cases "n < 2")
    case True
    with "1.prems" have "n = 1" by simp
    then show ?thesis by (simp add: ilog2.simps)
  next
    case False
    define m where "m = n div 2"
    have m1: "1 \<le> m" using False by (simp add: m_def)
    from "1.IH"[OF False] m1 have ih: "0 \<le> ilog2 m" "2 ^ nat (ilog2 m) \<le> m"
      "m < 2 ^ (nat (ilog2 m) + 1)" by (simp_all add: m_def)
    have e: "ilog2 n = ilog2 m + 1" using False by (subst ilog2.simps) (simp add: m_def)
    have k: "nat (ilog2 n) = Suc (nat (ilog2 m))" unfolding e using ih(1) by simp
    have n: "2 * m \<le> n" "n \<le> 2 * m + 1" by (simp_all add: m_def)
    have "2 ^ nat (ilog2 n) \<le> n" unfolding k using ih(2) n(1) by simp
    moreover have "n < 2 ^ (nat (ilog2 n) + 1)" unfolding k using ih(3) n(2) by simp
    moreover have "0 \<le> ilog2 n" unfolding e using ih(1) by simp
    ultimately show ?thesis by simp
  qed
qed

lemma ilog2_real:
  assumes "1 \<le> n"
  shows "(2::real) powi (ilog2 n) \<le> of_int n" and "of_int n + 1 \<le> (2::real) powi (ilog2 n + 1)"
    and "0 \<le> ilog2 n"
proof -
  from ilog2_bounds[OF assms] have b: "0 \<le> ilog2 n" "2 ^ nat (ilog2 n) \<le> n"
    "n + 1 \<le> 2 ^ (nat (ilog2 n) + 1)" by simp_all
  have p: "(2::real) powi (ilog2 n) = 2 ^ nat (ilog2 n)"
    using b(1) by (simp add: power_int_def)
  have q: "(2::real) powi (ilog2 n + 1) = 2 ^ (nat (ilog2 n) + 1)"
    using b(1) by (simp add: power_int_def nat_add_distrib)
  have "(of_int (2 ^ nat (ilog2 n)) :: real) \<le> of_int n" using b(2) by (simp only: of_int_le_iff)
  then show "(2::real) powi (ilog2 n) \<le> of_int n" unfolding p by simp
  have "(of_int (n + 1) :: real) \<le> of_int (2 ^ (nat (ilog2 n) + 1))"
    using b(3) by (simp only: of_int_le_iff)
  then show "of_int n + 1 \<le> (2::real) powi (ilog2 n + 1)" unfolding q by simp
  show "0 \<le> ilog2 n" by (rule b(1))
qed

lemma expo_bounds:
  assumes "0 < x"
  shows "2 powi (expo x) \<le> x" and "x < 2 powi (expo x + 1)"
proof -
  have "2 powi (expo x) \<le> x \<and> x < 2 powi (expo x + 1)"
  proof (cases "1 \<le> x")
    case True
    define n where "n = \<lfloor>x\<rfloor>"
    have n1: "1 \<le> n" using True by (simp add: n_def)
    have e: "expo x = ilog2 n" using True assms by (simp add: expo_def n_def)
    have "of_int n \<le> x" "x < of_int n + 1" by (simp_all add: n_def)
    with ilog2_real[OF n1] show ?thesis unfolding e by linarith
  next
    case False
    define y where "y = 1 / x"
    have y1: "1 < y" using False assms by (simp add: y_def)
    define m where "m = \<lceil>y\<rceil> - 1"
    have m1: "1 \<le> m" using y1 by (simp add: m_def)
    have e: "expo x = - ilog2 m - 1" using False assms by (simp add: expo_def m_def y_def)
    have my: "of_int m < y" "y \<le> of_int m + 1"
      using ceiling_correct[of y] by (simp_all add: m_def)
    define j where "j = ilog2 m"
    from ilog2_real[OF m1] have b: "2 powi j \<le> (of_int m :: real)"
      "(of_int m :: real) + 1 \<le> 2 powi (j + 1)" by (simp_all add: j_def)
    have p0: "(0::real) < 2 powi j" "(0::real) < 2 powi (j + 1)" by (simp_all add: zero_less_power_int)
    have x: "x = 1 / y" using assms by (simp add: y_def)
    have "y \<le> 2 powi (j + 1)" using my(2) b(2) by linarith
    then have l1: "1 / 2 powi (j + 1) \<le> 1 / y" using y1 by (intro divide_left_mono) simp_all
    have lo: "2 powi (- (j + 1)) \<le> x" unfolding x power_int_minus_divide by (rule l1)
    have "2 powi j < y" using my(1) b(1) by linarith
    then have h1: "1 / y < 1 / 2 powi j" using p0(1) y1
      by (intro divide_strict_left_mono mult_pos_pos) simp_all
    have hi: "x < 2 powi (- j)" unfolding x power_int_minus_divide by (rule h1)
    have e1: "expo x = - (j + 1)" and e2: "expo x + 1 = - j" unfolding e j_def by simp_all
    show ?thesis unfolding e2 unfolding e1 using lo hi by (rule conjI)
  qed
  then show "2 powi (expo x) \<le> x" and "x < 2 powi (expo x + 1)" by simp_all
qed

lemma expo_less:
  assumes "0 < x" and "x < 2 powi k"
  shows "expo x < k"
proof (rule ccontr)
  assume "\<not> expo x < k"
  then have "k \<le> expo x" by simp
  then have "(2::real) powi k \<le> 2 powi (expo x)" by (intro power_int_increasing) simp_all
  with expo_bounds(1)[OF assms(1)] assms(2) show False by simp
qed

lemma expo_ge:
  assumes "0 < x" and "2 powi k \<le> x"
  shows "k \<le> expo x"
proof (rule ccontr)
  assume "\<not> k \<le> expo x"
  then have "expo x + 1 \<le> k" by simp
  then have "(2::real) powi (expo x + 1) \<le> 2 powi k" by (intro power_int_increasing) simp_all
  with expo_bounds(2)[OF assms(1)] assms(2) show False by simp
qed

lemma expo_mono:
  assumes "0 < x" and "x \<le> y"
  shows "expo x \<le> expo y"
proof -
  have "0 < y" using assms by simp
  moreover have "2 powi (expo x) \<le> y" using expo_bounds(1)[OF assms(1)] assms(2) by simp
  ultimately show ?thesis by (rule expo_ge)
qed

lemma rne_cases: "rne y = \<lfloor>y\<rfloor> \<or> rne y = \<lfloor>y\<rfloor> + 1"
  by (simp add: rne_def Let_def)

lemma rne_of_int [simp]: "rne (of_int k) = k"
  by (simp add: rne_def Let_def)

lemma rne_mono:
  assumes "y \<le> z"
  shows "rne y \<le> rne z"
proof (cases "\<lfloor>y\<rfloor> < \<lfloor>z\<rfloor>")
  case True
  then have "\<lfloor>y\<rfloor> + 1 \<le> \<lfloor>z\<rfloor>" by simp
  with rne_cases[of y] rne_cases[of z] show ?thesis by linarith
next
  case False
  moreover have "\<lfloor>y\<rfloor> \<le> \<lfloor>z\<rfloor>" using assms by (rule floor_mono)
  ultimately have f: "\<lfloor>z\<rfloor> = \<lfloor>y\<rfloor>" by simp
  have d: "y - of_int \<lfloor>y\<rfloor> \<le> z - of_int \<lfloor>y\<rfloor>" using assms by simp
  show ?thesis
    unfolding rne_def Let_def f using d by auto
qed

lemma rne_nonneg: "0 \<le> y \<Longrightarrow> 0 \<le> rne y"
  using rne_mono[of 0 y] rne_of_int[of 0] by simp

lemma ulp_pos: "0 < ulp x"
  by (simp add: ulp_def zero_less_power_int)

lemma nearest_0 [simp]: "nearest 0 = 0"
  using rne_of_int[of 0] by (simp add: nearest_def)

lemma nearest_nonneg: "0 \<le> x \<Longrightarrow> 0 \<le> nearest x"
  unfolding nearest_def using ulp_pos[of x] by (intro mult_nonneg_nonneg) (simp_all add: rne_nonneg)

lemma ulp_bexp: "ulp x = 2 powi (bexp x - 23)"
  by (simp add: ulp_def)

lemma powi_split: "(2::real) powi k * 2 powi j = 2 powi (k + j)"
  by (rule power_int_add[symmetric]) simp

lemma pow24_ulp: "2 ^ 24 * ulp x = 2 powi (bexp x + 1)"
proof -
  have e: "(24::int) + (bexp x - 23) = bexp x + 1" by simp
  have "2 ^ 24 * ulp x = 2 powi 24 * 2 powi (bexp x - 23)" unfolding ulp_bexp by simp
  also have "\<dots> = 2 powi (bexp x + 1)" unfolding powi_split e ..
  finally show ?thesis .
qed

lemma pow23_ulp: "2 ^ 23 * ulp x = 2 powi (bexp x)"
proof -
  have e: "(23::int) + (bexp x - 23) = bexp x" by simp
  have "2 ^ 23 * ulp x = 2 powi 23 * 2 powi (bexp x - 23)" unfolding ulp_bexp by simp
  also have "\<dots> = 2 powi (bexp x)" unfolding powi_split e ..
  finally show ?thesis .
qed

lemma nearest_upper:
  assumes "0 < x"
  shows "nearest x \<le> 2 powi (bexp x + 1)"
proof -
  have "x < 2 powi (expo x + 1)" using assms by (rule expo_bounds(2))
  also have "\<dots> \<le> 2 powi (bexp x + 1)" by (intro power_int_increasing) (simp_all add: bexp_def)
  finally have "x < 2 ^ 24 * ulp x" unfolding pow24_ulp .
  then have "x / ulp x \<le> 2 ^ 24" using ulp_pos[of x] by (simp add: pos_divide_le_eq)
  then have "x / ulp x \<le> of_int (2 ^ 24)" by simp
  then have "rne (x / ulp x) \<le> rne (of_int (2 ^ 24))" by (rule rne_mono)
  then have "rne (x / ulp x) \<le> 2 ^ 24" by (simp only: rne_of_int)
  then have "(of_int (rne (x / ulp x)) :: real) \<le> of_int (2 ^ 24)" by (simp only: of_int_le_iff)
  then have "of_int (rne (x / ulp x)) * ulp x \<le> of_int (2 ^ 24) * ulp x"
    using ulp_pos[of x] by (intro mult_right_mono) simp_all
  then have "nearest x \<le> 2 ^ 24 * ulp x" unfolding nearest_def by simp
  then show ?thesis unfolding pow24_ulp .
qed

lemma nearest_lower:
  assumes "0 < x" and "- 126 \<le> expo x"
  shows "2 powi (bexp x) \<le> nearest x"
proof -
  have b: "bexp x = expo x" using assms(2) by (simp add: bexp_def)
  have "2 powi (bexp x) \<le> x" unfolding b using assms(1) by (rule expo_bounds(1))
  then have "2 ^ 23 * ulp x \<le> x" unfolding pow23_ulp .
  then have "2 ^ 23 \<le> x / ulp x" using ulp_pos[of x] by (simp add: pos_le_divide_eq)
  then have "of_int (2 ^ 23) \<le> x / ulp x" by simp
  then have "rne (of_int (2 ^ 23)) \<le> rne (x / ulp x)" by (rule rne_mono)
  then have "2 ^ 23 \<le> rne (x / ulp x)" by (simp only: rne_of_int)
  then have "(of_int (2 ^ 23) :: real) \<le> of_int (rne (x / ulp x))" by (simp only: of_int_le_iff)
  then have "of_int (2 ^ 23) * ulp x \<le> of_int (rne (x / ulp x)) * ulp x"
    using ulp_pos[of x] by (intro mult_right_mono) simp_all
  then have "2 ^ 23 * ulp x \<le> nearest x" unfolding nearest_def by simp
  then show ?thesis unfolding pow23_ulp .
qed

lemma bexp_mono: "0 < x \<Longrightarrow> x \<le> y \<Longrightarrow> bexp x \<le> bexp y"
  using expo_mono[of x y] by (simp add: bexp_def)

lemma nearest_mono:
  assumes "0 \<le> x" and "x \<le> y"
  shows "nearest x \<le> nearest y"
proof (cases "x = 0")
  case True
  then show ?thesis using nearest_nonneg[of y] assms by simp
next
  case False
  then have x: "0 < x" using assms(1) by simp
  then have y: "0 < y" using assms(2) by simp
  have le: "bexp x \<le> bexp y" using x assms(2) by (rule bexp_mono)
  show ?thesis
  proof (cases "bexp x = bexp y")
    case True
    then have u: "ulp y = ulp x" by (simp add: ulp_bexp)
    have "x / ulp x \<le> y / ulp x" using assms(2) ulp_pos[of x] by (simp add: divide_right_mono)
    then have "rne (x / ulp x) \<le> rne (y / ulp x)" by (rule rne_mono)
    then have "(of_int (rne (x / ulp x)) :: real) \<le> of_int (rne (y / ulp x))"
      by (simp only: of_int_le_iff)
    then show ?thesis unfolding nearest_def u using ulp_pos[of x] by (intro mult_right_mono) simp_all
  next
    case False
    with le have lt: "bexp x + 1 \<le> bexp y" by simp
    then have "- 126 < bexp y" by (simp add: bexp_def)
    then have ey: "- 126 \<le> expo y" by (simp add: bexp_def max_def split: if_splits)
    have "nearest x \<le> 2 powi (bexp x + 1)" using x by (rule nearest_upper)
    also have "\<dots> \<le> 2 powi (bexp y)" using lt by (intro power_int_increasing) simp_all
    also have "\<dots> \<le> nearest y" using y ey by (rule nearest_lower)
    finally show ?thesis .
  qed
qed

lemma nearest_grid:
  assumes "0 \<le> m" and "bexp (of_int m * 2 powi (a - 23)) \<le> a"
  shows "nearest (of_int m * 2 powi (a - 23)) = of_int m * 2 powi (a - 23)"
proof -
  define r :: real where "r = of_int m * 2 powi (a - 23)"
  define c where "c = bexp r"
  have ca: "c \<le> a" using assms(2) by (simp add: c_def r_def)
  have u: "ulp r = 2 powi (c - 23)" by (simp add: ulp_bexp c_def)
  have s: "(2::real) powi (a - 23) = 2 powi (a - c) * 2 powi (c - 23)"
  proof -
    have e: "(a - c) + (c - 23) = a - 23" by simp
    show ?thesis unfolding powi_split e ..
  qed
  have p: "(2::real) powi (a - c) = of_int (2 ^ nat (a - c))"
    using ca by (simp add: power_int_def)
  have r': "r = of_int (m * 2 ^ nat (a - c)) * 2 powi (c - 23)"
    unfolding r_def s p by simp
  have nz: "(2::real) powi (c - 23) \<noteq> 0"
    using zero_less_power_int[of "2::real" "c - 23"] by simp
  have "r / 2 powi (c - 23) = of_int (m * 2 ^ nat (a - c)) * 2 powi (c - 23) / 2 powi (c - 23)"
    using r' by simp
  also have "\<dots> = of_int (m * 2 ^ nat (a - c))" using nz by simp
  finally have q: "r / 2 powi (c - 23) = of_int (m * 2 ^ nat (a - c))" .
  have "nearest r = of_int (m * 2 ^ nat (a - c)) * 2 powi (c - 23)"
    unfolding nearest_def u q rne_of_int ..
  also have "\<dots> = r" by (rule r'[symmetric])
  finally show ?thesis unfolding r_def .
qed

lemma nearest_idem:
  assumes "0 \<le> x"
  shows "nearest (nearest x) = nearest x"
proof (cases "nearest x = 0")
  case True
  then show ?thesis by simp
next
  case False
  with nearest_nonneg[OF assms] have r0: "0 < nearest x" by simp
  have x0: "0 < x" using False assms by (cases "x = 0") simp_all
  define a where "a = bexp x"
  define m where "m = rne (x / ulp x)"
  have m0: "0 \<le> m" unfolding m_def using assms ulp_pos[of x] by (intro rne_nonneg) simp
  have r: "nearest x = of_int m * 2 powi (a - 23)" by (simp add: nearest_def m_def a_def ulp_bexp)
  have up: "nearest x \<le> 2 powi (a + 1)" unfolding a_def using x0 by (rule nearest_upper)
  have a126: "- 126 \<le> a" by (simp add: a_def bexp_def)
  show ?thesis
  proof (cases "nearest x < 2 powi (a + 1)")
    case True
    with r0 have "expo (nearest x) < a + 1" by (rule expo_less)
    then have "bexp (nearest x) \<le> a" using a126 by (simp add: bexp_def)
    then show ?thesis unfolding r using m0 by (intro nearest_grid) simp_all
  next
    case False
    with up have eq: "nearest x = 2 powi (a + 1)" by simp
    have e: "23 + ((a + 1) - 23) = a + 1" by simp
    have "(2::real) powi 23 * 2 powi ((a + 1) - 23) = 2 powi (a + 1)" unfolding powi_split e ..
    then have g: "(2::real) powi (a + 1) = of_int (2 ^ 23) * 2 powi ((a + 1) - 23)" by simp
    have "expo (nearest x) < a + 2"
      using r0 unfolding eq by (intro expo_less) (simp_all add: power_int_strict_increasing)
    then have b: "bexp (2 powi (a + 1)) \<le> a + 1" unfolding eq using a126 by (simp add: bexp_def)
    have "nearest (of_int (2 ^ 23) * 2 powi ((a + 1) - 23)) = of_int (2 ^ 23) * 2 powi ((a + 1) - 23)"
      using b unfolding g by (intro nearest_grid) simp_all
    then show ?thesis unfolding eq g .
  qed
qed

lemma round32_mono:
  assumes "0 \<le> x" and "x \<le> y"
  shows "round32 x \<le> round32 y"
  using nearest_mono[OF assms] nearest_nonneg[OF assms(1)]
  by (simp add: round32_def Let_def)

lemma round32_0 [simp]: "round32 0 = Finite 0"
  by (simp add: round32_def)

lemma round32_nonneg:
  assumes "0 \<le> x"
  shows "round32 x = PInfinity \<or> (\<exists>r. 0 \<le> r \<and> round32 x = Finite r \<and> round32 r = Finite r)"
proof (cases "2 ^ 128 \<le> nearest x")
  case True
  then show ?thesis by (simp add: round32_def)
next
  case False
  have n: "0 \<le> nearest x" using assms by (rule nearest_nonneg)
  have "round32 x = Finite (nearest x)" using False n by (simp add: round32_def)
  moreover have "round32 (nearest x) = Finite (nearest x)"
    using False n nearest_idem[OF assms] by (simp add: round32_def)
  ultimately show ?thesis using n by blast
qed

subsection \<open>The costs of the search\<close>

lemma cost_value_0: "cost_value (Finite 0)"
  by (simp add: cost_value_def)

lemma cost_value_PInfinity: "cost_value PInfinity"
  by (simp add: cost_value_def)

lemma cost_value_ge0: "cost_value a \<Longrightarrow> Finite 0 \<le> a"
  by (auto simp: cost_value_def)

lemma cost_value_le_PInfinity: "cost_value a \<Longrightarrow> a \<le> PInfinity"
  by (auto simp: cost_value_def)

lemma cost_value_top: "cost_value a \<Longrightarrow> PInfinity \<le> a \<Longrightarrow> a = PInfinity"
  by (auto simp: cost_value_def)

lemma cost_value_flt: "cost_value a \<Longrightarrow> cost_value b \<Longrightarrow> flt a b \<longleftrightarrow> a < b"
  by (auto simp: cost_value_def flt_def)

lemma finite_weight:
  assumes "Finite 0 \<le> a" and "a < PInfinity"
  shows "\<exists>w. 0 \<le> w \<and> a = Finite w"
  using assms by (cases a) simp_all

lemma fadd_value:
  assumes "cost_value a" and "0 \<le> w"
  shows "cost_value (fadd a (Finite w))"
proof (cases "a = PInfinity")
  case True
  then show ?thesis by (simp add: cost_value_PInfinity)
next
  case False
  with assms(1) obtain c where c: "0 \<le> c" "a = Finite c" by (auto simp: cost_value_def)
  from round32_nonneg[of "c + w"] c(1) assms(2) show ?thesis
    unfolding c(2) cost_value_def by simp
qed

lemma fadd_ge:
  assumes "cost_value a" and "0 \<le> w"
  shows "a \<le> fadd a (Finite w)"
proof (cases "a = PInfinity")
  case True
  then show ?thesis by simp
next
  case False
  with assms(1) obtain c where c: "0 \<le> c" "a = Finite c" "round32 c = Finite c"
    by (auto simp: cost_value_def)
  have "round32 c \<le> round32 (c + w)" using c(1) assms(2) by (intro round32_mono) simp_all
  then show ?thesis unfolding c(2) using c(3) by simp
qed

lemma fadd_mono:
  assumes "cost_value a" and "cost_value b" and "a \<le> b" and "0 \<le> w"
  shows "fadd a (Finite w) \<le> fadd b (Finite w)"
proof (cases "b = PInfinity")
  case True
  have "cost_value (fadd a (Finite w))" using assms(1,4) by (rule fadd_value)
  then show ?thesis unfolding True by (simp add: cost_value_le_PInfinity)
next
  case False
  with assms(2) obtain cb where cb: "0 \<le> cb" "b = Finite cb" by (auto simp: cost_value_def)
  from assms(1,3) cb obtain ca where ca: "0 \<le> ca" "a = Finite ca"
    by (auto simp: cost_value_def)
  have "ca \<le> cb" using assms(3) unfolding ca(2) cb(2) by simp
  then have "round32 (ca + w) \<le> round32 (cb + w)" using ca(1) assms(4) by (intro round32_mono) simp_all
  then show ?thesis unfolding ca(2) cb(2) by simp
qed

subsection \<open>The invariant and its parts\<close>

lemma nbrs_of_Some: "e \<in> set (nbrs_of g u) \<Longrightarrow> \<exists>ns. g u = Some ns \<and> e \<in> set ns"
  by (cases "g u") (simp_all add: nbrs_of_def)

lemma edge_weight:
  assumes "costs_ok g" and "e \<in> set (nbrs_of g u)"
  shows "\<exists>w. 0 \<le> w \<and> edge_cost (snd e) = Finite w"
proof -
  from nbrs_of_Some[OF assms(2)] obtain ns where "g u = Some ns" "e \<in> set ns" by blast
  with assms(1) have "Finite 0 \<le> edge_cost (snd e)" "edge_cost (snd e) < PInfinity"
    unfolding costs_ok_def by blast+
  then show ?thesis by (rule finite_weight)
qed

lemma relax_value:
  assumes "costs_ok g" and "e \<in> set (nbrs_of g u)" and "cost_value a"
  shows "cost_value (fadd a (edge_cost (snd e)))" and "a \<le> fadd a (edge_cost (snd e))"
proof -
  from edge_weight[OF assms(1,2)] obtain w where w: "0 \<le> w" "edge_cost (snd e) = Finite w"
    by blast
  show "cost_value (fadd a (edge_cost (snd e)))" unfolding w(2) using assms(3) w(1) by (rule fadd_value)
  show "a \<le> fadd a (edge_cost (snd e))" unfolding w(2) using assms(3) w(1) by (rule fadd_ge)
qed

lemma relax_mono:
  assumes "costs_ok g" and "e \<in> set (nbrs_of g u)" and "cost_value a" and "cost_value b"
    and "a \<le> b"
  shows "fadd a (edge_cost (snd e)) \<le> fadd b (edge_cost (snd e))"
proof -
  from edge_weight[OF assms(1,2)] obtain w where w: "0 \<le> w" "edge_cost (snd e) = Finite w"
    by blast
  show ?thesis unfolding w(2) using assms(3,4,5) w(1) by (rule fadd_mono)
qed

lemma edge_in_dom:
  assumes "graph_ok g" and "e \<in> set (nbrs_of g u)"
  shows "fst e \<in> dom g"
  using assms(1) nbrs_of_Some[OF assms(2)] unfolding graph_ok_def by blast

lemma edge_map_of:
  assumes "graph_ok g" and "e \<in> set (nbrs_of g u)"
  shows "map_of (nbrs_of g u) (fst e) = Some (snd e)"
proof -
  from nbrs_of_Some[OF assms(2)] obtain ns where ns: "g u = Some ns" "e \<in> set ns" by blast
  with assms(1) have "distinct (map fst ns)" by (auto simp: graph_ok_def)
  with ns show ?thesis by (simp add: nbrs_of_def)
qed

lemma map_of_edge:
  assumes "map_of (nbrs_of g u) v = Some l"
  shows "(v, l) \<in> set (nbrs_of g u)"
  using assms by (rule map_of_SomeD)

lemma core_src: "core g src s \<Longrightarrow> cost s src = Finite 0"
  unfolding core_def by (elim conjE)

lemma core_value: "core g src s \<Longrightarrow> cost_value (cost s v)"
  unfolding core_def by (elim conjE) (erule allE[of _ v])

lemma core_prev:
  assumes "core g src s" and "prev s v = Some u"
  shows "v \<noteq> src" and "v \<in> dom g" and "chain (prev s) src v"
    and "\<exists>l. map_of (nbrs_of g u) v = Some l \<and> cost s v \<noteq> PInfinity
           \<and> fadd (cost s u) (edge_cost l) \<le> cost s v"
proof -
  from assms(1) have "\<forall>v u. prev s v = Some u \<longrightarrow>
           v \<noteq> src \<and> v \<in> dom g \<and> chain (prev s) src v
           \<and> (\<exists>l. map_of (nbrs_of g u) v = Some l \<and> cost s v \<noteq> PInfinity
                 \<and> fadd (cost s u) (edge_cost l) \<le> cost s v)"
    unfolding core_def by (elim conjE)
  then have a: "v \<noteq> src \<and> v \<in> dom g \<and> chain (prev s) src v
           \<and> (\<exists>l. map_of (nbrs_of g u) v = Some l \<and> cost s v \<noteq> PInfinity
                 \<and> fadd (cost s u) (edge_cost l) \<le> cost s v)"
    using assms(2) by (elim allE[of _ v] allE[of _ u]) simp
  from a show "v \<noteq> src" by (elim conjE)
  from a show "v \<in> dom g" by (elim conjE)
  from a show "chain (prev s) src v" by (elim conjE)
  from a show "\<exists>l. map_of (nbrs_of g u) v = Some l \<and> cost s v \<noteq> PInfinity
           \<and> fadd (cost s u) (edge_cost l) \<le> cost s v" by (elim conjE)
qed

lemma core_undiscovered:
  assumes "core g src s" and "v \<in> dom g" and "v \<noteq> src" and "prev s v = None"
  shows "cost s v = PInfinity"
proof -
  from assms(1) have "\<forall>v \<in> dom g. v \<noteq> src \<longrightarrow> prev s v = None \<longrightarrow> cost s v = PInfinity"
    unfolding core_def by (elim conjE)
  with assms(2-4) show ?thesis by (elim ballE[of _ _ v]) simp_all
qed

lemma core_pq:
  assumes "core g src s" and "e \<in> set (pq s)"
  shows "snd e \<in> nodes g src" and "cost_value (fst e)" and "fst e \<noteq> PInfinity"
    and "cost s (snd e) \<le> fst e"
proof -
  from assms(1) have "\<forall>e \<in> set (pq s). snd e \<in> nodes g src \<and> cost_value (fst e)
           \<and> fst e \<noteq> PInfinity \<and> cost s (snd e) \<le> fst e"
    unfolding core_def by (elim conjE)
  with assms(2) have a: "snd e \<in> nodes g src \<and> cost_value (fst e)
           \<and> fst e \<noteq> PInfinity \<and> cost s (snd e) \<le> fst e"
    by (elim ballE[of _ _ e]) simp_all
  from a show "snd e \<in> nodes g src" by (elim conjE)
  from a show "cost_value (fst e)" by (elim conjE)
  from a show "fst e \<noteq> PInfinity" by (elim conjE)
  from a show "cost s (snd e) \<le> fst e" by (elim conjE)
qed

lemma core_distinct: "core g src s \<Longrightarrow> distinct (pq s)"
  unfolding core_def by (elim conjE)

lemma coreI:
  assumes "cost s src = Finite 0"
    and "\<And>v. cost_value (cost s v)"
    and "\<And>v u. prev s v = Some u \<Longrightarrow>
           v \<noteq> src \<and> v \<in> dom g \<and> chain (prev s) src v
           \<and> (\<exists>l. map_of (nbrs_of g u) v = Some l \<and> cost s v \<noteq> PInfinity
                 \<and> fadd (cost s u) (edge_cost l) \<le> cost s v)"
    and "\<And>v. v \<in> dom g \<Longrightarrow> v \<noteq> src \<Longrightarrow> prev s v = None \<Longrightarrow> cost s v = PInfinity"
    and "\<And>e. e \<in> set (pq s) \<Longrightarrow> snd e \<in> nodes g src \<and> cost_value (fst e)
           \<and> fst e \<noteq> PInfinity \<and> cost s (snd e) \<le> fst e"
    and "distinct (pq s)"
  shows "core g src s"
  unfolding core_def
  apply (intro conjI allI ballI impI)
  using assms(1) apply assumption
  using assms(2) apply assumption
  using assms(3) apply blast
  using assms(3) apply blast
  using assms(3) apply blast
  using assms(3) apply blast
  using assms(4) apply blast
  using assms(5) apply blast
  using assms(5) apply blast
  using assms(5) apply blast
  using assms(5) apply blast
  using assms(6) apply assumption
  done

lemma core_prev_le:
  assumes "core g src s" and "costs_ok g" and "prev s v = Some u"
  shows "cost s u \<le> cost s v"
proof -
  from core_prev(4)[OF assms(1,3)] obtain l where l: "map_of (nbrs_of g u) v = Some l"
    "fadd (cost s u) (edge_cost l) \<le> cost s v"
    by blast
  from relax_value(2)[OF assms(2) map_of_edge[OF l(1)] core_value[OF assms(1), of u]]
  have "cost s u \<le> fadd (cost s u) (edge_cost l)" by simp
  then show ?thesis using l(2) by (rule order_trans)
qed

lemma chain_upd_below:
  fixes c :: "string \<Rightarrow> float32"
  assumes "chain p src x"
    and "\<And>a b. p a = Some b \<Longrightarrow> c b \<le> c a"
    and "c x < c v"
  shows "chain (p(v \<mapsto> u)) src x"
  using assms(1,3)
proof (induction rule: chain.induct)
  case chain_source
  show ?case by (rule chain.chain_source)
next
  case (chain_step x y)
  from assms(2)[OF chain_step.hyps(1)] chain_step.prems have "c y < c v" by simp
  then have y: "chain (p(v \<mapsto> u)) src y" by (rule chain_step.IH)
  have "x \<noteq> v" using chain_step.prems by auto
  then have "(p(v \<mapsto> u)) x = Some y" using chain_step.hyps(1) by simp
  then show ?case using chain_step.hyps(2) y by (rule chain.chain_step)
qed

lemma chain_upd_all:
  assumes "chain p src x" and "chain (p(v \<mapsto> u)) src u" and "v \<noteq> src"
  shows "chain (p(v \<mapsto> u)) src x"
  using assms(1)
proof (induction rule: chain.induct)
  case chain_source
  show ?case by (rule chain.chain_source)
next
  case (chain_step x y)
  show ?case
  proof (cases "x = v")
    case True
    have "(p(v \<mapsto> u)) x = Some u" using True by simp
    then show ?thesis using chain_step.hyps(2) assms(2) by (rule chain.chain_step)
  next
    case False
    then have "(p(v \<mapsto> u)) x = Some y" using chain_step.hyps(1) by simp
    then show ?thesis using chain_step.hyps(2) chain_step.IH by (rule chain.chain_step)
  qed
qed

lemma core_chain:
  assumes "core g src s" and "x \<in> nodes g src" and "cost s x \<noteq> PInfinity"
  shows "chain (prev s) src x"
proof (cases "x = src")
  case True
  then show ?thesis by (simp add: chain.chain_source)
next
  case False
  with assms(2) have d: "x \<in> dom g" by (simp add: nodes_def)
  have "prev s x \<noteq> None"
  proof
    assume "prev s x = None"
    with assms(1) d False have "cost s x = PInfinity" by (intro core_undiscovered)
    with assms(3) show False by simp
  qed
  then obtain u where "prev s x = Some u" by blast
  with assms(1) show ?thesis by (rule core_prev(3))
qed

lemma midD:
  assumes "mid g src dest u es s"
  shows "core g src s" and "settled g src s u"
    and "\<And>x. settled g src s x \<Longrightarrow> x \<noteq> u \<Longrightarrow> relaxed s x (nbrs_of g x)"
    and "relaxed s u es"
    and "\<And>x e. settled g src s x \<Longrightarrow> e \<in> set (pq s) \<Longrightarrow> cost s x \<le> fst e"
    and "\<And>x. settled g src s x \<Longrightarrow> cost s x \<le> cost s u"
    and "dest \<noteq> u" and "\<not> settled g src s dest"
  using assms unfolding mid_def by blast+

lemma midI:
  assumes "core g src s" and "settled g src s u"
    and "\<And>x. settled g src s x \<Longrightarrow> x \<noteq> u \<Longrightarrow> relaxed s x (nbrs_of g x)"
    and "relaxed s u es"
    and "\<And>x e. settled g src s x \<Longrightarrow> e \<in> set (pq s) \<Longrightarrow> cost s x \<le> fst e"
    and "\<And>x. settled g src s x \<Longrightarrow> cost s x \<le> cost s u"
    and "dest \<noteq> u" and "\<not> settled g src s dest"
  shows "mid g src dest u es s"
  using assms unfolding mid_def by blast

lemma dinvD:
  assumes "dinv g src dest s"
  shows "core g src s"
    and "\<And>x. settled g src s x \<Longrightarrow> relaxed s x (nbrs_of g x)"
    and "\<And>x e. settled g src s x \<Longrightarrow> e \<in> set (pq s) \<Longrightarrow> cost s x \<le> fst e"
    and "\<not> settled g src s dest"
  using assms unfolding dinv_def by blast+

lemma dinvI:
  assumes "core g src s"
    and "\<And>x. settled g src s x \<Longrightarrow> relaxed s x (nbrs_of g x)"
    and "\<And>x e. settled g src s x \<Longrightarrow> e \<in> set (pq s) \<Longrightarrow> cost s x \<le> fst e"
    and "\<not> settled g src s dest"
  shows "dinv g src dest s"
  using assms unfolding dinv_def by blast

lemma settledD:
  assumes "settled g src s x"
  shows "x \<in> nodes g src" and "cost s x \<noteq> PInfinity" and "(cost s x, x) \<notin> set (pq s)"
  using assms unfolding settled_def by blast+

lemma settledI:
  "x \<in> nodes g src \<Longrightarrow> cost s x \<noteq> PInfinity \<Longrightarrow> (cost s x, x) \<notin> set (pq s) \<Longrightarrow> settled g src s x"
  unfolding settled_def by blast

lemma relaxed_append: "relaxed s x (es @ [e]) \<longleftrightarrow> relaxed s x es \<and> relaxed s x [e]"
  unfolding relaxed_def by auto

lemma relaxed_Nil: "relaxed s x []"
  unfolding relaxed_def by simp

lemma relaxed_single:
  "cost s (fst e) \<le> fadd (cost s x) (edge_cost (snd e)) \<Longrightarrow> relaxed s x [e]"
  unfolding relaxed_def by simp

lemma relaxed_mono:
  assumes "relaxed s x es" and "cost s' x = cost s x"
    and "\<And>y. cost s' y \<le> cost s y"
  shows "relaxed s' x es"
  unfolding relaxed_def
proof
  fix e assume "e \<in> set es"
  with assms(1) have "cost s (fst e) \<le> fadd (cost s x) (edge_cost (snd e))"
    unfolding relaxed_def by blast
  with assms(3)[of "fst e"] show "cost s' (fst e) \<le> fadd (cost s' x) (edge_cost (snd e))"
    unfolding assms(2) by (rule order_trans)
qed

lemma relax_edge_noop:
  "\<not> flt (fadd (cost s u) (edge_cost (snd e))) (cost s (fst e)) \<Longrightarrow> relax_edge u e s = s"
  by (simp add: relax_edge_def Let_def)

lemma relax_edge_upd:
  "flt (fadd (cost s u) (edge_cost (snd e))) (cost s (fst e))
     \<Longrightarrow> relax_edge u e s =
           s\<lparr>cost := (cost s)(fst e := fadd (cost s u) (edge_cost (snd e))),
             prev := (prev s)(fst e \<mapsto> u),
             pq := pq s @ [(fadd (cost s u) (edge_cost (snd e)), fst e)]\<rparr>"
  by (simp add: relax_edge_def Let_def)

subsection \<open>Relaxing one edge\<close>

lemma relax_edge_mid:
  assumes m: "mid g src dest u es s" and gok: "graph_ok g" and cok: "costs_ok g"
    and e: "e \<in> set (nbrs_of g u)"
  shows "mid g src dest u (es @ [e]) (relax_edge u e s)
       \<and> (\<forall>x. settled g src (relax_edge u e s) x = settled g src s x)"
proof -
  note c = midD(1)[OF m]
  note un = settledD(1)[OF midD(2)[OF m]] and cuq = settledD(3)[OF midD(2)[OF m]]
  define v where "v = fst e"
  define nc where "nc = fadd (cost s u) (edge_cost (snd e))"
  have ncv: "cost_value nc" unfolding nc_def using cok e core_value[OF c] by (rule relax_value(1))
  have cun: "cost s u \<le> nc" unfolding nc_def using cok e core_value[OF c] by (rule relax_value(2))
  have nc0: "Finite 0 \<le> nc" using ncv by (rule cost_value_ge0)
  have vd: "v \<in> dom g" unfolding v_def using gok e by (rule edge_in_dom)
  have vm: "map_of (nbrs_of g u) v = Some (snd e)" unfolding v_def using gok e by (rule edge_map_of)
  have fl: "flt nc (cost s v) \<longleftrightarrow> nc < cost s v"
    using ncv core_value[OF c] by (rule cost_value_flt)
  show ?thesis
  proof (cases "nc < cost s v")
    case False
    then have same: "relax_edge u e s = s"
      using fl by (intro relax_edge_noop) (simp add: nc_def v_def)
    from False have "cost s v \<le> nc" by simp
    then have "relaxed s u [e]" by (intro relaxed_single) (simp add: v_def nc_def)
    with midD(4)[OF m] have r: "relaxed s u (es @ [e])" by (simp add: relaxed_append)
    have "mid g src dest u (es @ [e]) s"
      using c midD(2)[OF m] midD(3)[OF m] r midD(5)[OF m] midD(6)[OF m] midD(7)[OF m] midD(8)[OF m]
      by (rule midI)
    then show ?thesis unfolding same by simp
  next
    case True
    define s' where "s' = s\<lparr>cost := (cost s)(v := nc), prev := (prev s)(v \<mapsto> u),
                             pq := pq s @ [(nc, v)]\<rparr>"
    have upd: "relax_edge u e s = s'"
      unfolding s'_def nc_def v_def using True fl
      by (intro relax_edge_upd) (simp add: nc_def v_def)
    have cost': "cost s' = (cost s)(v := nc)" and prev': "prev s' = (prev s)(v \<mapsto> u)"
      and pq': "pq s' = pq s @ [(nc, v)]" by (simp_all add: s'_def)
    have ncf: "nc \<noteq> PInfinity"
    proof
      assume "nc = PInfinity"
      with True cost_value_le_PInfinity[OF core_value[OF c, of v]] show False by simp
    qed
    have b1: "v \<noteq> src"
    proof
      assume "v = src"
      with True core_src[OF c] have "nc < Finite 0" by simp
      with nc0 show False by simp
    qed
    have b2: "v \<noteq> u"
    proof
      assume "v = u"
      with True cun show False by simp
    qed
    have b3: "\<not> settled g src s v"
    proof
      assume sv: "settled g src s v"
      from midD(6)[OF m sv] cun have "cost s v \<le> nc" by (rule order_trans)
      with True show False by simp
    qed
    have b5: "nc < k" if "(k, v) \<in> set (pq s)" for k
    proof -
      from core_pq(4)[OF c that] have "cost s v \<le> k" by simp
      with True show ?thesis by (rule less_le_trans)
    qed
    have cost_same: "cost s' x = cost s x" if "x \<noteq> v" for x using that by (simp add: cost')
    have cost_v: "cost s' v = nc" by (simp add: cost')
    have cost_le: "cost s' y \<le> cost s y" for y
      using True by (cases "y = v") (simp_all add: cost')
    have set_eq: "settled g src s' x = settled g src s x" for x
    proof (cases "x = v")
      case True
      have "\<not> settled g src s' v"
      proof
        assume "settled g src s' v"
        then have "(cost s' v, v) \<notin> set (pq s')" by (rule settledD(3))
        then show False by (simp add: cost' pq')
      qed
      with b3 True show ?thesis by simp
    next
      case False
      then show ?thesis unfolding settled_def by (simp add: cost_same pq')
    qed
    have cu': "cost s' u = cost s u" using b2 by (simp add: cost_same)
    have su': "settled g src s' u" using midD(2)[OF m] by (simp add: set_eq)

    have le: "cost s b \<le> cost s a" if "prev s a = Some b" for a b
      using c cok that by (rule core_prev_le)
    have cuf: "cost s u \<noteq> PInfinity" by (rule settledD(2)[OF midD(2)[OF m]])
    have chu: "chain (prev s) src u" using c un cuf by (rule core_chain)
    have "cost s u < cost s v" using cun True by (rule le_less_trans)
    with chu le have chu': "chain ((prev s)(v \<mapsto> u)) src u"
      by (intro chain_upd_below[where c = "cost s"])
    have ch': "chain (prev s') src x" if "chain (prev s) src x" for x
      unfolding prev' using that chu' b1 by (rule chain_upd_all)
    have chv: "chain (prev s') src v"
      unfolding prev' using _ b1 chu' by (rule chain.chain_step) simp
    have val': "cost_value (cost s' x)" for x
      using ncv core_value[OF c, of x] by (cases "x = v") (simp_all add: cost')
    have core': "core g src s'"
    proof (rule coreI)
      show "cost s' src = Finite 0" using b1 core_src[OF c] by (simp add: cost_same)
    next
      fix x show "cost_value (cost s' x)" by (rule val')
    next
      fix x y assume p: "prev s' x = Some y"
      show "x \<noteq> src \<and> x \<in> dom g \<and> chain (prev s') src x
           \<and> (\<exists>l. map_of (nbrs_of g y) x = Some l \<and> cost s' x \<noteq> PInfinity
                 \<and> fadd (cost s' y) (edge_cost l) \<le> cost s' x)"
      proof (cases "x = v")
        case True
        with p have y: "y = u" by (simp add: prev')
        have "fadd (cost s' u) (edge_cost (snd e)) \<le> cost s' v"
          unfolding cu' cost_v by (simp add: nc_def)
        with vm ncf cost_v have "\<exists>l. map_of (nbrs_of g u) v = Some l \<and> cost s' v \<noteq> PInfinity
                 \<and> fadd (cost s' u) (edge_cost l) \<le> cost s' v" by auto
        with True y b1 vd chv show ?thesis by simp
      next
        case False
        with p have p0: "prev s x = Some y" by (simp add: prev')
        from core_prev(4)[OF c p0] obtain l where l: "map_of (nbrs_of g y) x = Some l"
          "cost s x \<noteq> PInfinity" "fadd (cost s y) (edge_cost l) \<le> cost s x" by blast
        have cx: "cost s' x = cost s x" using False by (rule cost_same)
        have "fadd (cost s' y) (edge_cost l) \<le> fadd (cost s y) (edge_cost l)"
          using relax_mono[OF cok map_of_edge[OF l(1)] val'[of y] core_value[OF c, of y] cost_le[of y]]
          by simp
        then have "fadd (cost s' y) (edge_cost l) \<le> cost s' x"
          unfolding cx using l(3) by (rule order_trans)
        with l(1,2) cx have "\<exists>l. map_of (nbrs_of g y) x = Some l \<and> cost s' x \<noteq> PInfinity
                 \<and> fadd (cost s' y) (edge_cost l) \<le> cost s' x" by auto
        with core_prev(1,2)[OF c p0] ch'[OF core_prev(3)[OF c p0]] show ?thesis by simp
      qed
    next
      fix x assume "x \<in> dom g" "x \<noteq> src" "prev s' x = None"
      moreover from this have xv: "x \<noteq> v" by (auto simp: prev')
      ultimately have "cost s x = PInfinity" using c by (intro core_undiscovered) (simp_all add: prev')
      with xv show "cost s' x = PInfinity" by (simp add: cost_same)
    next
      fix q assume "q \<in> set (pq s')"
      then consider "q \<in> set (pq s)" | "q = (nc, v)" by (auto simp: pq')
      then show "snd q \<in> nodes g src \<and> cost_value (fst q) \<and> fst q \<noteq> PInfinity
                 \<and> cost s' (snd q) \<le> fst q"
      proof cases
        case 1
        have "cost s' (snd q) \<le> fst q"
          using cost_le[of "snd q"] core_pq(4)[OF c 1] by (rule order_trans)
        with core_pq(1,2,3)[OF c 1] show ?thesis by simp
      next
        case 2
        with vd cost_v ncv ncf show ?thesis by (simp add: nodes_def)
      qed
    next
      have "(nc, v) \<notin> set (pq s)" using b5[of nc] by auto
      with core_distinct[OF c] show "distinct (pq s')" by (simp add: pq')
    qed
    have "mid g src dest u (es @ [e]) s'"
    proof (rule midI)
      show "core g src s'" by (rule core')
      show "settled g src s' u" by (rule su')
    next
      fix x assume sx: "settled g src s' x" and xu: "x \<noteq> u"
      then have sx0: "settled g src s x" by (simp add: set_eq)
      with b3 have "x \<noteq> v" by auto
      then have "cost s' x = cost s x" by (rule cost_same)
      with midD(3)[OF m sx0 xu] show "relaxed s' x (nbrs_of g x)"
        using cost_le by (intro relaxed_mono[of s x _ s'])
    next
      have "relaxed s' u es"
        using midD(4)[OF m] cu' cost_le by (intro relaxed_mono[of s u es s'])
      moreover have "relaxed s' u [e]"
      proof (rule relaxed_single)
        have "cost s' (fst e) = nc" using cost_v by (simp add: v_def)
        then show "cost s' (fst e) \<le> fadd (cost s' u) (edge_cost (snd e))"
          unfolding cu' by (simp add: nc_def)
      qed
      ultimately show "relaxed s' u (es @ [e])" by (simp add: relaxed_append)
    next
      fix x q assume sx: "settled g src s' x" and q: "q \<in> set (pq s')"
      from sx have sx0: "settled g src s x" by (simp add: set_eq)
      with b3 have "x \<noteq> v" by auto
      then have cx: "cost s' x = cost s x" by (rule cost_same)
      from q consider "q \<in> set (pq s)" | "q = (nc, v)" by (auto simp: pq')
      then show "cost s' x \<le> fst q"
      proof cases
        case 1
        with sx0 show ?thesis unfolding cx by (rule midD(5)[OF m])
      next
        case 2
        from midD(6)[OF m sx0] cun have "cost s x \<le> nc" by (rule order_trans)
        with 2 show ?thesis unfolding cx by simp
      qed
    next
      fix x assume sx: "settled g src s' x"
      from sx have sx0: "settled g src s x" by (simp add: set_eq)
      with b3 have "x \<noteq> v" by auto
      then have cx: "cost s' x = cost s x" by (rule cost_same)
      from midD(6)[OF m sx0] show "cost s' x \<le> cost s' u" unfolding cx cu' .
    next
      show "dest \<noteq> u" by (rule midD(7)[OF m])
      show "\<not> settled g src s' dest" using midD(8)[OF m] by (simp add: set_eq)
    qed
    with set_eq show ?thesis unfolding upd by simp
  qed
qed

subsection \<open>One round of the main loop\<close>

lemma fold_relax_mid:
  assumes "mid g src dest u ds s" and "graph_ok g" and "costs_ok g"
    and "set es \<subseteq> set (nbrs_of g u)"
  shows "mid g src dest u (ds @ es) (fold (relax_edge u) es s)
       \<and> (\<forall>x. settled g src (fold (relax_edge u) es s) x = settled g src s x)"
  using assms(1,4)
proof (induction es arbitrary: ds s)
  case Nil
  then show ?case by simp
next
  case (Cons e es)
  from Cons.prems(2) have e: "e \<in> set (nbrs_of g u)" and es: "set es \<subseteq> set (nbrs_of g u)"
    by simp_all
  from relax_edge_mid[OF Cons.prems(1) assms(2,3) e]
  have m: "mid g src dest u (ds @ [e]) (relax_edge u e s)"
    and st: "\<forall>x. settled g src (relax_edge u e s) x = settled g src s x" by simp_all
  from Cons.IH[OF m es] st show ?case by simp
qed

lemma mid_dinv:
  assumes "mid g src dest u (nbrs_of g u) s"
  shows "dinv g src dest s"
proof (rule dinvI)
  show "core g src s" by (rule midD(1)[OF assms])
next
  fix x assume "settled g src s x"
  then show "relaxed s x (nbrs_of g x)"
    using midD(3)[OF assms, of x] midD(4)[OF assms] by (cases "x = u") simp_all
next
  fix x e assume "settled g src s x" "e \<in> set (pq s)"
  then show "cost s x \<le> fst e" by (rule midD(5)[OF assms])
next
  show "\<not> settled g src s dest" by (rule midD(8)[OF assms])
qed

lemma fst_Min_le:
  fixes q :: "float32 \<times> string"
  assumes "q \<in> set qs"
  shows "fst (Min (set qs)) \<le> fst q"
proof -
  have "Min (set qs) \<le> q" using assms by simp
  then show ?thesis by (auto simp: less_eq_prod_def)
qed

lemma in_remove1D: "e \<in> set (remove1 q xs) \<Longrightarrow> e \<in> set xs"
  using set_remove1_subset[of q xs] by blast

lemma core_remove:
  assumes "core g src s"
  shows "core g src (s\<lparr>pq := remove1 q (pq s)\<rparr>)"
proof (rule coreI)
  show "cost (s\<lparr>pq := remove1 q (pq s)\<rparr>) src = Finite 0" using core_src[OF assms] by simp
next
  fix v show "cost_value (cost (s\<lparr>pq := remove1 q (pq s)\<rparr>) v)"
    using core_value[OF assms, of v] by simp
next
  fix v u assume "prev (s\<lparr>pq := remove1 q (pq s)\<rparr>) v = Some u"
  then have p: "prev s v = Some u" by simp
  from core_prev[OF assms p]
  show "v \<noteq> src \<and> v \<in> dom g \<and> chain (prev (s\<lparr>pq := remove1 q (pq s)\<rparr>)) src v
      \<and> (\<exists>l. map_of (nbrs_of g u) v = Some l
            \<and> cost (s\<lparr>pq := remove1 q (pq s)\<rparr>) v \<noteq> PInfinity
            \<and> fadd (cost (s\<lparr>pq := remove1 q (pq s)\<rparr>) u) (edge_cost l)
                \<le> cost (s\<lparr>pq := remove1 q (pq s)\<rparr>) v)"
    by simp
next
  fix v assume "v \<in> dom g" "v \<noteq> src" "prev (s\<lparr>pq := remove1 q (pq s)\<rparr>) v = None"
  then show "cost (s\<lparr>pq := remove1 q (pq s)\<rparr>) v = PInfinity"
    using core_undiscovered[OF assms, of v] by simp
next
  fix e assume "e \<in> set (pq (s\<lparr>pq := remove1 q (pq s)\<rparr>))"
  then have "e \<in> set (pq s)" by (auto dest: in_remove1D)
  from core_pq[OF assms this]
  show "snd e \<in> nodes g src \<and> cost_value (fst e) \<and> fst e \<noteq> PInfinity
      \<and> cost (s\<lparr>pq := remove1 q (pq s)\<rparr>) (snd e) \<le> fst e"
    by simp
next
  show "distinct (pq (s\<lparr>pq := remove1 q (pq s)\<rparr>))" using core_distinct[OF assms] by simp
qed

lemma relaxed_cost_cong: "cost s' = cost s \<Longrightarrow> relaxed s' x es = relaxed s x es"
  unfolding relaxed_def by simp

lemma settled_remove:
  assumes "distinct (pq s)"
  shows "settled g src (s\<lparr>pq := remove1 q (pq s)\<rparr>) x
       \<longleftrightarrow> settled g src s x
           \<or> (x \<in> nodes g src \<and> cost s x \<noteq> PInfinity \<and> snd q = x \<and> cost s x = fst q)"
  unfolding settled_def using assms by (cases q) auto

lemma visit_test:
  assumes "core g src s" and "q \<in> set (pq s)"
  shows "flt (cost s (snd q)) (fst q) \<longleftrightarrow> cost s (snd q) \<noteq> fst q"
proof -
  have "flt (cost s (snd q)) (fst q) \<longleftrightarrow> cost s (snd q) < fst q"
    using core_value[OF assms(1)] core_pq(2)[OF assms] by (rule cost_value_flt)
  with core_pq(4)[OF assms] show ?thesis by auto
qed

text \<open>Popping an entry that is out of date.\<close>
lemma pop_stale:
  assumes d: "dinv g src dest s" and ne: "pq s \<noteq> []"
    and st: "cost s (snd (Min (set (pq s)))) \<noteq> fst (Min (set (pq s)))"
  shows "dinv g src dest (s\<lparr>pq := remove1 (Min (set (pq s))) (pq s)\<rparr>)"
    and "unsettled g src (s\<lparr>pq := remove1 (Min (set (pq s))) (pq s)\<rparr>) = unsettled g src s"
proof -
  let ?q = "Min (set (pq s))" and ?s = "s\<lparr>pq := remove1 (Min (set (pq s))) (pq s)\<rparr>"
  note c = dinvD(1)[OF d]
  have se: "settled g src ?s x = settled g src s x" for x
    using st by (auto simp: settled_remove[OF core_distinct[OF c]])
  show "unsettled g src ?s = unsettled g src s" by (simp add: unsettled_def se)
  show "dinv g src dest ?s"
  proof (rule dinvI)
    show "core g src ?s" using c by (rule core_remove)
  next
    fix x assume "settled g src ?s x"
    then have "relaxed s x (nbrs_of g x)" using dinvD(2)[OF d] by (simp add: se)
    then show "relaxed ?s x (nbrs_of g x)" by (simp add: relaxed_cost_cong[of ?s s])
  next
    fix x e assume "settled g src ?s x" "e \<in> set (pq ?s)"
    then have "settled g src s x" "e \<in> set (pq s)"
      by (auto simp: se dest: in_remove1D)
    then have "cost s x \<le> fst e" by (rule dinvD(3)[OF d])
    then show "cost ?s x \<le> fst e" by simp
  next
    show "\<not> settled g src ?s dest" using dinvD(4)[OF d] by (simp add: se)
  qed
qed

text \<open>Popping the current entry of a node other than the destination.\<close>
lemma pop_current:
  assumes d: "dinv g src dest s" and ne: "pq s \<noteq> []"
    and nd: "snd (Min (set (pq s))) \<noteq> dest"
    and st: "cost s (snd (Min (set (pq s)))) = fst (Min (set (pq s)))"
  shows "mid g src dest (snd (Min (set (pq s)))) [] (s\<lparr>pq := remove1 (Min (set (pq s))) (pq s)\<rparr>)"
    and "snd (Min (set (pq s))) \<in> unsettled g src s"
    and "unsettled g src (s\<lparr>pq := remove1 (Min (set (pq s))) (pq s)\<rparr>)
           = unsettled g src s - {snd (Min (set (pq s)))}"
proof -
  let ?q = "Min (set (pq s))" and ?s = "s\<lparr>pq := remove1 (Min (set (pq s))) (pq s)\<rparr>"
  note c = dinvD(1)[OF d]
  have qin: "?q \<in> set (pq s)" using ne by simp
  note un = core_pq(1)[OF c qin]
  have cf: "cost s (snd ?q) \<noteq> PInfinity" unfolding st by (rule core_pq(3)[OF c qin])
  have q: "?q = (cost s (snd ?q), snd ?q)" using st by simp
  have se: "settled g src ?s x \<longleftrightarrow> settled g src s x \<or> x = snd ?q" for x
    using un cf st by (auto simp: settled_remove[OF core_distinct[OF c]])
  have nsu: "\<not> settled g src s (snd ?q)"
  proof
    assume "settled g src s (snd ?q)"
    then have "(cost s (snd ?q), snd ?q) \<notin> set (pq s)" by (rule settledD(3))
    with q qin show False by simp
  qed
  show "snd ?q \<in> unsettled g src s" using un nsu by (simp add: unsettled_def)
  show "unsettled g src ?s = unsettled g src s - {snd ?q}"
    by (auto simp: unsettled_def se)
  show "mid g src dest (snd ?q) [] ?s"
  proof (rule midI)
    show "core g src ?s" using c by (rule core_remove)
    show "settled g src ?s (snd ?q)" by (simp add: se)
    show "relaxed ?s (snd ?q) []" by (rule relaxed_Nil)
    show "dest \<noteq> snd ?q" using nd by simp
    show "\<not> settled g src ?s dest" using dinvD(4)[OF d] nd by (simp add: se)
  next
    fix x assume "settled g src ?s x" "x \<noteq> snd ?q"
    then have "relaxed s x (nbrs_of g x)" using dinvD(2)[OF d] by (simp add: se)
    then show "relaxed ?s x (nbrs_of g x)" by (simp add: relaxed_cost_cong[of ?s s])
  next
    fix x e assume sx: "settled g src ?s x" and e: "e \<in> set (pq ?s)"
    from e have e0: "e \<in> set (pq s)" by (auto dest: in_remove1D)
    have "cost s x \<le> fst e"
    proof (cases "x = snd ?q")
      case True
      with fst_Min_le[OF e0] st show ?thesis by simp
    next
      case False
      with sx have "settled g src s x" by (simp add: se)
      then show ?thesis using e0 by (rule dinvD(3)[OF d])
    qed
    then show "cost ?s x \<le> fst e" by simp
  next
    fix x assume sx: "settled g src ?s x"
    have "cost s x \<le> cost s (snd ?q)"
    proof (cases "x = snd ?q")
      case True
      then show ?thesis by simp
    next
      case False
      with sx have "settled g src s x" by (simp add: se)
      from dinvD(3)[OF d this qin] st show ?thesis by simp
    qed
    then show "cost ?s x \<le> cost ?s (snd ?q)" by simp
  qed
qed

lemma visit_fold:
  assumes "\<not> flt (cost s (snd q)) (fst q)"
  shows "visit g q s = fold (relax_edge (snd q)) (nbrs_of g (snd q)) s"
  using assms by (simp add: visit_def nbrs_of_def split: option.splits)

lemma visit_stale: "flt (cost s (snd q)) (fst q) \<Longrightarrow> visit g q s = s"
  by (simp add: visit_def)

text \<open>One round of the main loop that does not leave it.\<close>
lemma loop_round:
  assumes d: "dinv g src dest s" and gok: "graph_ok g" and cok: "costs_ok g"
    and ne: "pq s \<noteq> []" and nd: "snd (Min (set (pq s))) \<noteq> dest"
  defines "s' \<equiv> visit g (Min (set (pq s))) (s\<lparr>pq := remove1 (Min (set (pq s))) (pq s)\<rparr>)"
  shows "dinv g src dest s'"
    and "card (unsettled g src s') < card (unsettled g src s)
         \<or> card (unsettled g src s') = card (unsettled g src s) \<and> length (pq s') < length (pq s)"
proof -
  let ?q = "Min (set (pq s))" and ?s = "s\<lparr>pq := remove1 (Min (set (pq s))) (pq s)\<rparr>"
  have qin: "?q \<in> set (pq s)" using ne by simp
  have fin: "finite (unsettled g src s)"
    using gok by (simp add: unsettled_def graph_ok_def nodes_def)
  have t: "flt (cost ?s (snd ?q)) (fst ?q) \<longleftrightarrow> cost s (snd ?q) \<noteq> fst ?q"
    using visit_test[OF dinvD(1)[OF d] qin] by simp
  have both: "dinv g src dest s'
    \<and> (card (unsettled g src s') < card (unsettled g src s)
         \<or> card (unsettled g src s') = card (unsettled g src s) \<and> length (pq s') < length (pq s))"
  proof (cases "cost s (snd ?q) = fst ?q")
    case False
    then have s': "s' = ?s" unfolding s'_def using t by (intro visit_stale) simp
    have "0 < length (pq s)" using ne by simp
    then have "length (pq ?s) < length (pq s)" using qin by (simp add: length_remove1)
    with pop_stale[OF d ne False] show ?thesis unfolding s' by simp
  next
    case True
    then have "\<not> flt (cost ?s (snd ?q)) (fst ?q)" using t by simp
    then have s': "s' = fold (relax_edge (snd ?q)) (nbrs_of g (snd ?q)) ?s"
      unfolding s'_def by (rule visit_fold)
    note p = pop_current[OF d ne nd True]
    from fold_relax_mid[OF p(1) gok cok subset_refl]
    have m: "mid g src dest (snd ?q) (nbrs_of g (snd ?q)) s'"
      and se: "\<forall>x. settled g src s' x = settled g src ?s x"
      unfolding s' by simp_all
    from se have "unsettled g src s' = unsettled g src ?s" by (simp add: unsettled_def)
    with p(3) have "unsettled g src s' = unsettled g src s - {snd ?q}" by simp
    moreover have "card (unsettled g src s - {snd ?q}) < card (unsettled g src s)"
      using fin p(2) by (rule card_Diff1_less)
    ultimately have "card (unsettled g src s') < card (unsettled g src s)" by simp
    with mid_dinv[OF m] show ?thesis by simp
  qed
  from both show "dinv g src dest s'" by simp
  from both show "card (unsettled g src s') < card (unsettled g src s)
         \<or> card (unsettled g src s') = card (unsettled g src s) \<and> length (pq s') < length (pq s)"
    by simp
qed

subsection \<open>The loop ends, with the least cost at the destination\<close>

lemma link_at_map_of: "map_of (nbrs_of g a) b = Some l \<Longrightarrow> link_at g a b = l"
  by (simp add: link_at_def)

lemma route_cost_value:
  "costs_ok g \<Longrightarrow> path_ok g p \<Longrightarrow> cost_value acc
     \<Longrightarrow> cost_value (route_cost g acc p) \<and> acc \<le> route_cost g acc p"
proof (induction g acc p rule: route_cost.induct)
  case (1 g acc a b rest)
  from "1.prems"(2) obtain l where l: "map_of (nbrs_of g a) b = Some l" and r: "path_ok g (b # rest)"
    by auto
  note v = relax_value[OF "1.prems"(1) map_of_edge[OF l] "1.prems"(3)]
  from v have v1: "cost_value (fadd acc (edge_cost (link_at g a b)))"
    and v2: "acc \<le> fadd acc (edge_cost (link_at g a b))"
    by (simp_all add: link_at_map_of[OF l])
  from "1.IH"[OF "1.prems"(1) r v1]
  have "cost_value (route_cost g (fadd acc (edge_cost (link_at g a b))) (b # rest))"
    and "fadd acc (edge_cost (link_at g a b))
           \<le> route_cost g (fadd acc (edge_cost (link_at g a b))) (b # rest)"
    by simp_all
  with v2 show ?case by auto
qed simp_all

lemma search_init_dinv: "dinv g src dest (search_init g src)"
proof -
  let ?s = "search_init g src"
  have ns: "\<not> settled g src ?s x" for x
  proof
    assume a: "settled g src ?s x"
    from settledD[OF a] show False
      by (auto simp: search_init_def nodes_def split: if_splits)
  qed
  have "core g src ?s"
    by (rule coreI)
       (auto simp: search_init_def nodes_def cost_value_0 cost_value_PInfinity split: if_splits)
  then show ?thesis using ns by (intro dinvI) simp_all
qed

lemma walk:
  assumes d: "dinv g src dest s" and gok: "graph_ok g" and cok: "costs_ok g"
  shows "path_ok g (x # rest) \<Longrightarrow> x \<in> nodes g src \<Longrightarrow> cost_value acc \<Longrightarrow> cost s x \<le> acc
    \<Longrightarrow> (\<exists>e \<in> set (pq s). fst e \<le> route_cost g acc (x # rest))
        \<or> cost s (last (x # rest)) \<le> route_cost g acc (x # rest)"
proof (induction rest arbitrary: x acc)
  case Nil
  then show ?case by simp
next
  case (Cons y ys)
  note c = dinvD(1)[OF d]
  from Cons.prems(1) obtain l where l: "map_of (nbrs_of g x) y = Some l"
    and r: "path_ok g (y # ys)" by auto
  have e: "(y, l) \<in> set (nbrs_of g x)" using l by (rule map_of_edge)
  define acc' where "acc' = fadd acc (edge_cost l)"
  have rc: "route_cost g acc (x # y # ys) = route_cost g acc' (y # ys)"
    using l by (simp add: link_at_map_of acc'_def)
  have av: "cost_value acc'" and aa: "acc \<le> acc'"
    using relax_value[OF cok e Cons.prems(3)] by (simp_all add: acc'_def)
  from route_cost_value[OF cok r av]
  have rv: "cost_value (route_cost g acc' (y # ys))" and ar: "acc' \<le> route_cost g acc' (y # ys)"
    by simp_all
  have xr: "cost s x \<le> route_cost g acc' (y # ys)"
    using Cons.prems(4) aa ar by (meson order_trans)
  show ?case
  proof (cases "(cost s x, x) \<in> set (pq s)")
    case True
    with xr show ?thesis unfolding rc by force
  next
    case False
    show ?thesis
    proof (cases "cost s x = PInfinity")
      case True
      with xr have "route_cost g acc' (y # ys) = PInfinity"
        using rv by (intro cost_value_top) simp_all
      moreover have "cost s (last (x # y # ys)) \<le> PInfinity"
        using core_value[OF c] by (rule cost_value_le_PInfinity)
      ultimately show ?thesis unfolding rc by simp
    next
      case fin: False
      with Cons.prems(2) False have "settled g src s x" by (intro settledI)
      from dinvD(2)[OF d this] e have "cost s y \<le> fadd (cost s x) (edge_cost l)"
        unfolding relaxed_def by force
      also have "\<dots> \<le> acc'"
        unfolding acc'_def
        using relax_mono[OF cok e core_value[OF c, of x] Cons.prems(3) Cons.prems(4)] by simp
      finally have cy: "cost s y \<le> acc'" .
      have yn: "y \<in> nodes g src" using edge_in_dom[OF gok e] by (simp add: nodes_def)
      from Cons.IH[OF r yn av cy] show ?thesis unfolding rc by simp
    qed
  qed
qed

lemma exit_bound:
  assumes d: "dinv g src dest s" and gok: "graph_ok g" and cok: "costs_ok g"
    and r: "is_route g src dest p"
    and ex: "pq s = [] \<or> snd (Min (set (pq s))) = dest"
  shows "cost s dest \<le> route_cost g (Finite 0) p"
proof -
  note c = dinvD(1)[OF d]
  from r obtain rest where p: "p = src # rest" and ok: "path_ok g (src # rest)"
    and la: "last (src # rest) = dest"
    unfolding is_route_def by (cases p) auto
  have "src \<in> nodes g src" by (simp add: nodes_def)
  moreover have "cost s src \<le> Finite 0" using core_src[OF c] by simp
  ultimately have "(\<exists>e \<in> set (pq s). fst e \<le> route_cost g (Finite 0) (src # rest))
        \<or> cost s (last (src # rest)) \<le> route_cost g (Finite 0) (src # rest)"
    using walk[OF d gok cok ok _ cost_value_0] by blast
  then consider e where "e \<in> set (pq s)" "fst e \<le> route_cost g (Finite 0) p"
    | "cost s dest \<le> route_cost g (Finite 0) p"
    unfolding p la by auto
  then show ?thesis
  proof cases
    case 1
    then have ne: "pq s \<noteq> []" by auto
    with ex have q: "snd (Min (set (pq s))) = dest" by simp
    have "Min (set (pq s)) \<in> set (pq s)" using ne by simp
    from core_pq(4)[OF c this] q have "cost s dest \<le> fst (Min (set (pq s)))" by simp
    also have "\<dots> \<le> fst e" using 1(1) by (rule fst_Min_le)
    also have "\<dots> \<le> route_cost g (Finite 0) p" by (rule 1(2))
    finally show ?thesis .
  next
    case 2
    then show ?thesis .
  qed
qed

lemma dijkstra_loop_final:
  assumes gok: "graph_ok g" and cok: "costs_ok g"
  shows "dinv g src dest s \<Longrightarrow> \<exists>s'. dijkstra_loop g dest s = Some s' \<and> final g src dest s'"
proof (induction s rule: wf_induct_rule[OF wf_measures[of
         "[\<lambda>s. card (unsettled g src s), \<lambda>s. length (pq s)]"]])
  case (1 s)
  note d = "1.prems"
  show ?case
  proof (cases "pq s = []")
    case True
    then have "dijkstra_loop g dest s = Some s" by (subst dijkstra_loop.simps) simp
    moreover have "final g src dest s"
      unfolding final_def using dinvD(1)[OF d] exit_bound[OF d gok cok] True by blast
    ultimately show ?thesis by blast
  next
    case ne: False
    let ?q = "Min (set (pq s))"
    let ?s = "s\<lparr>pq := remove1 ?q (pq s)\<rparr>"
    show ?thesis
    proof (cases "snd ?q = dest")
      case True
      with ne have "dijkstra_loop g dest s = Some ?s"
        by (subst dijkstra_loop.simps) (simp add: Let_def)
      moreover have "final g src dest ?s"
        unfolding final_def using core_remove[OF dinvD(1)[OF d]] exit_bound[OF d gok cok] True
        by simp
      ultimately show ?thesis by blast
    next
      case False
      with ne have step: "dijkstra_loop g dest s = dijkstra_loop g dest (visit g ?q ?s)"
        by (subst dijkstra_loop.simps) (simp add: Let_def)
      from loop_round[OF d gok cok ne False]
      have d': "dinv g src dest (visit g ?q ?s)"
        and m: "card (unsettled g src (visit g ?q ?s)) < card (unsettled g src s)
         \<or> card (unsettled g src (visit g ?q ?s)) = card (unsettled g src s)
           \<and> length (pq (visit g ?q ?s)) < length (pq s)"
        by simp_all
      from m have "(visit g ?q ?s, s) \<in> measures [\<lambda>s. card (unsettled g src s), \<lambda>s. length (pq s)]"
        by auto
      from "1.IH"[OF this d'] show ?thesis unfolding step .
    qed
  qed
qed

subsection \<open>Walking back along the predecessors\<close>

lemma path_ok_snoc:
  "path_ok g p \<Longrightarrow> map_of (nbrs_of g (last p)) v \<noteq> None \<Longrightarrow> path_ok g (p @ [v])"
proof (induction g p rule: path_ok.induct)
  case (3 g a b rest)
  then show ?case by simp
qed simp_all

lemma route_cost_snoc:
  "p \<noteq> [] \<Longrightarrow> route_cost g acc (p @ [v])
     = fadd (route_cost g acc p) (edge_cost (link_at g (last p) v))"
proof (induction g acc p rule: route_cost.induct)
  case (1 g acc a b rest)
  then show ?case by simp
qed simp_all

lemma path_ok_nonempty: "path_ok g p \<Longrightarrow> p \<noteq> []"
  by (cases p) simp_all

lemma reconstruct_chain:
  assumes c: "core g src s" and ne: "[] \<notin> nodes g src" and cok: "costs_ok g"
  shows "chain (prev s) src v \<Longrightarrow>
     \<exists>p. reconstruct (prev s) src v acc = Some (p @ acc) \<and> path_ok g p \<and> hd p = src
         \<and> last p = v \<and> route_cost g (Finite 0) p \<le> cost s v"
proof (induction arbitrary: acc rule: chain.induct)
  case chain_source
  have "src \<noteq> []" using ne by (auto simp: nodes_def)
  then have "reconstruct (prev s) src src acc = Some ([src] @ acc)"
    by (subst reconstruct.simps) simp
  moreover have "path_ok g [src]" "hd [src] = src" "last [src] = src" by simp_all
  moreover have "route_cost g (Finite 0) [src] \<le> cost s src"
    using core_src[OF c] by simp
  ultimately show ?case by blast
next
  case (chain_step v u)
  from core_prev[OF c chain_step.hyps(1)] obtain l where vd: "v \<in> dom g"
    and l: "map_of (nbrs_of g u) v = Some l" "fadd (cost s u) (edge_cost l) \<le> cost s v"
    by blast
  have vne: "v \<noteq> []" using vd ne by (auto simp: nodes_def)
  from chain_step.IH[of "v # acc"] obtain p where
    p: "reconstruct (prev s) src u (v # acc) = Some (p @ v # acc)"
    "path_ok g p" "hd p = src" "last p = u" and pc: "route_cost g (Finite 0) p \<le> cost s u"
    by blast
  have pne: "p \<noteq> []" using p(2) by (rule path_ok_nonempty)
  have "reconstruct (prev s) src v acc = reconstruct (prev s) src u (v # acc)"
    using vne chain_step.hyps(1,2) by (subst reconstruct.simps) (simp add: prev_at_def)
  then have "reconstruct (prev s) src v acc = Some ((p @ [v]) @ acc)" using p(1) by simp
  moreover have "path_ok g (p @ [v])" using p(2,4) l(1) by (intro path_ok_snoc) simp_all
  moreover have "hd (p @ [v]) = src" using pne p(3) by simp
  moreover have "last (p @ [v]) = v" by simp
  moreover have "route_cost g (Finite 0) (p @ [v]) \<le> cost s v"
  proof -
    have pv: "cost_value (route_cost g (Finite 0) p)"
      using route_cost_value[OF cok p(2) cost_value_0] by simp
    have "route_cost g (Finite 0) (p @ [v]) = fadd (route_cost g (Finite 0) p) (edge_cost l)"
      using pne p(4) l(1) by (simp add: route_cost_snoc link_at_map_of)
    also have "\<dots> \<le> fadd (cost s u) (edge_cost l)"
      using relax_mono[OF cok map_of_edge[OF l(1)] pv core_value[OF c, of u] pc] by simp
    also have "\<dots> \<le> cost s v" by (rule l(2))
    finally show ?thesis .
  qed
  ultimately show ?case by blast
qed

lemma path_metrics: "path (fst (metrics p (r, g))) = path r"
  by (induction p "(r, g)" arbitrary: r g rule: metrics.induct) simp_all

lemma route_last_in_nodes:
  assumes "graph_ok g"
  shows "path_ok g (x # rest) \<Longrightarrow> x \<in> nodes g src \<Longrightarrow> last (x # rest) \<in> nodes g src"
proof (induction rest arbitrary: x)
  case Nil
  then show ?case by simp
next
  case (Cons y ys)
  from Cons.prems(1) obtain l where l: "map_of (nbrs_of g x) y = Some l"
    and r: "path_ok g (y # ys)" by auto
  have "y \<in> nodes g src" using edge_in_dom[OF assms map_of_edge[OF l]] by (simp add: nodes_def)
  from Cons.IH[OF r this] show ?case by simp
qed

lemma dijkstra_optimal:
  assumes gok: "graph_ok g" and cok: "costs_ok g" and ne: "[] \<notin> nodes g src"
    and r0: "is_route g src dest p0" and f0: "route_cost g (Finite 0) p0 \<noteq> PInfinity"
  shows "\<exists>r g'. dijkstra g src dest = Some (Inr (r, g')) \<and> is_route g src dest (path r)
           \<and> (\<forall>p. is_route g src dest p
                 \<longrightarrow> route_cost g (Finite 0) (path r) \<le> route_cost g (Finite 0) p)"
proof -
  from dijkstra_loop_final[OF gok cok search_init_dinv]
  obtain s where s: "dijkstra_loop g dest (search_init g src) = Some s" and f: "final g src dest s"
    by blast
  from f have c: "core g src s"
    and b: "\<And>p. is_route g src dest p \<Longrightarrow> cost s dest \<le> route_cost g (Finite 0) p"
    unfolding final_def by blast+
  have cd: "cost s dest \<noteq> PInfinity"
  proof
    assume "cost s dest = PInfinity"
    with b[OF r0] have "PInfinity \<le> route_cost g (Finite 0) p0" by simp
    moreover have "cost_value (route_cost g (Finite 0) p0)"
      using route_cost_value[OF cok _ cost_value_0] r0 by (simp add: is_route_def)
    ultimately have "route_cost g (Finite 0) p0 = PInfinity" by (intro cost_value_top)
    with f0 show False by simp
  qed
  from r0 obtain rest where "p0 = src # rest" "path_ok g (src # rest)" "last (src # rest) = dest"
    unfolding is_route_def by (cases p0) auto
  with route_last_in_nodes[OF gok, of src rest src] have dn: "dest \<in> nodes g src"
    by (simp add: nodes_def)
  have ch: "chain (prev s) src dest" using c dn cd by (rule core_chain)
  have pd: "prev s dest \<noteq> None \<or> dest = src"
  proof (cases "dest = src")
    case False
    with dn have "dest \<in> dom g" by (simp add: nodes_def)
    with core_undiscovered[OF c this False] cd show ?thesis by auto
  qed simp
  from reconstruct_chain[OF c ne cok ch, of "[]"] obtain p where
    p: "reconstruct (prev s) src dest [] = Some p"
    "path_ok g p" "hd p = src" "last p = dest" and pcd: "route_cost g (Finite 0) p \<le> cost s dest"
    by auto
  have pne: "p \<noteq> []" using p(2) by (rule path_ok_nonempty)
  define out where "out = metrics p (route_default\<lparr>path := p, total_latency_ms := Finite 0,
                            min_bandwidth_mbps := PInfinity, quality_score := Finite 1\<rparr>, g)"
  have "dijkstra g src dest = Some (Inr out)"
    using s pd p(1) pne by (auto simp: dijkstra_def out_def)
  then have d: "dijkstra g src dest = Some (Inr (fst out, snd out))" by simp
  have po: "path (fst out) = p" unfolding out_def by (simp add: path_metrics)
  have "is_route g src dest (path (fst out))" unfolding po is_route_def using p(2-4) by simp
  moreover have "route_cost g (Finite 0) (path (fst out)) \<le> route_cost g (Finite 0) q"
    if "is_route g src dest q" for q
    unfolding po using pcd b[OF that] by (rule order_trans)
  ultimately show ?thesis using d by blast
qed

subsection \<open>Graphs built through the interface are well formed\<close>

lemma graph_ok_lists: "graph_ok g \<longleftrightarrow> finite (dom g) \<and> lists_ok g (dom g)"
  unfolding graph_ok_def lists_ok_def by blast

lemma lists_ok_mono: "lists_ok g D \<Longrightarrow> D \<subseteq> D' \<Longrightarrow> lists_ok g D'"
  unfolding lists_ok_def by blast

lemma lists_ok_nbrs: "lists_ok g D \<Longrightarrow> distinct (map fst (nbrs_of g a)) \<and> fst ` set (nbrs_of g a) \<subseteq> D"
  unfolding lists_ok_def nbrs_of_def by (cases "g a") auto

lemma lists_ok_set_link:
  assumes "lists_ok g D" and "b \<in> D"
  shows "lists_ok (set_link a b l g) D"
  unfolding lists_ok_def
proof (intro allI impI)
  fix u ns assume s: "set_link a b l g u = Some ns"
  show "distinct (map fst ns) \<and> fst ` set ns \<subseteq> D"
  proof (cases "u = a")
    case True
    with s have ns: "ns = AList.update b l (nbrs_of g a)" by (simp add: set_link_def)
    from lists_ok_nbrs[OF assms(1), of a] assms(2) show ?thesis
      unfolding ns by (simp add: distinct_update dom_update)
  next
    case False
    with s have "g u = Some ns" by (simp add: set_link_def)
    with assms(1) show ?thesis unfolding lists_ok_def by blast
  qed
qed

lemma dom_set_link: "dom (set_link a b l g) = insert a (dom g)"
  by (auto simp: set_link_def)

lemma dom_add_link: "dom (graph (add_link a b l r)) = insert a (insert b (dom (graph r)))"
  by (auto simp: add_link_def dom_set_link)

lemma graph_ok_add_link:
  assumes "graph_ok (graph r)"
  shows "graph_ok (graph (add_link a b l r))"
proof -
  let ?D = "insert a (insert b (dom (graph r)))"
  from assms have f: "finite (dom (graph r))" and lo: "lists_ok (graph r) (dom (graph r))"
    by (simp_all add: graph_ok_lists)
  from lo have "lists_ok (graph r) ?D" by (rule lists_ok_mono) blast
  then have "lists_ok (set_link a b l (graph r)) ?D" by (rule lists_ok_set_link) simp
  then have "lists_ok (set_link b a (l\<lparr>from_device := b, to_device := a\<rparr>) (set_link a b l (graph r))) ?D"
    by (rule lists_ok_set_link) simp
  then have "lists_ok (graph (add_link a b l r)) (dom (graph (add_link a b l r)))"
    unfolding dom_add_link by (simp add: add_link_def)
  moreover have "finite (dom (graph (add_link a b l r)))" unfolding dom_add_link using f by simp
  ultimately show ?thesis by (simp add: graph_ok_lists)
qed

lemma graph_ok_set_quality:
  assumes "graph_ok g"
  shows "graph_ok (set_quality a b q g)"
proof (cases "g a")
  case None
  with assms show ?thesis by (simp add: set_quality_def)
next
  case (Some ns)
  show ?thesis
  proof (cases "map_of ns b")
    case None
    with Some assms show ?thesis by (simp add: set_quality_def)
  next
    case (Some l)
    with \<open>g a = Some ns\<close> have e: "set_quality a b q g = g(a \<mapsto> AList.update b (l\<lparr>quality := q\<rparr>) ns)"
      by (simp add: set_quality_def)
    have d: "dom (set_quality a b q g) = dom g" unfolding e using \<open>g a = Some ns\<close> by auto
    from assms \<open>g a = Some ns\<close> have ns: "distinct (map fst ns)" "fst ` set ns \<subseteq> dom g"
      unfolding graph_ok_def by blast+
    have b: "b \<in> fst ` set ns" using map_of_SomeD[OF Some] by force
    have "distinct (map fst ns') \<and> fst ` set ns' \<subseteq> dom g"
      if "set_quality a b q g u = Some ns'" for u ns'
    proof (cases "u = a")
      case True
      with that have "ns' = AList.update b (l\<lparr>quality := q\<rparr>) ns" by (simp add: e)
      with ns b show ?thesis by (auto simp: distinct_update dom_update)
    next
      case False
      with that have "g u = Some ns'" by (simp add: e)
      with assms show ?thesis unfolding graph_ok_def by blast
    qed
    with assms show ?thesis unfolding graph_ok_def d by blast
  qed
qed

lemma graph_ok_erase_link:
  assumes "graph_ok g"
  shows "graph_ok (erase_link a b g)"
proof (cases "g a")
  case None
  with assms show ?thesis by (simp add: erase_link_def)
next
  case (Some ns)
  then have e: "erase_link a b g = g(a \<mapsto> AList.delete b ns)" by (simp add: erase_link_def)
  have d: "dom (erase_link a b g) = dom g" unfolding e using Some by auto
  from assms Some have ns: "distinct (map fst ns)" "fst ` set ns \<subseteq> dom g"
    unfolding graph_ok_def by blast+
  have "distinct (map fst ns') \<and> fst ` set ns' \<subseteq> dom g"
    if "erase_link a b g u = Some ns'" for u ns'
  proof (cases "u = a")
    case True
    with that have "ns' = AList.delete b ns" by (simp add: e)
    with ns dom_delete_subset[of b ns] show ?thesis by (auto simp: distinct_delete)
  next
    case False
    with that have "g u = Some ns'" by (simp add: e)
    with assms show ?thesis unfolding graph_ok_def by blast
  qed
  with assms show ?thesis unfolding graph_ok_def d by blast
qed

lemma built_graph_ok: "built r \<Longrightarrow> graph_ok (graph r)"
proof (induction rule: built.induct)
  case built_init
  show ?case by (simp add: graph_ok_def routing_init_def)
next
  case (built_add r a b l)
  from built_add.IH show ?case by (rule graph_ok_add_link)
next
  case (built_update r a b q)
  then show ?case by (simp add: update_link_def graph_ok_set_quality)
next
  case (built_remove r a b)
  then show ?case by (simp add: remove_link_def graph_ok_erase_link)
next
  case (built_register r h ds)
  then show ?case by (simp add: register_chunk_location_def)
qed

lemma in_update: "e \<in> set (AList.update k v al) \<Longrightarrow> e = (k, v) \<or> e \<in> set al"
  by (induction al) (auto split: if_splits)

lemma costs_ok_set_link:
  assumes "costs_ok g" and "Finite 0 \<le> edge_cost l \<and> edge_cost l < PInfinity"
  shows "costs_ok (set_link a b l g)"
  unfolding costs_ok_def
proof (intro allI impI ballI)
  fix u ns e assume s: "set_link a b l g u = Some ns" and e: "e \<in> set ns"
  show "Finite 0 \<le> edge_cost (snd e) \<and> edge_cost (snd e) < PInfinity"
  proof (cases "u = a")
    case True
    with s e have "e \<in> set (AList.update b l (nbrs_of g a))" by (simp add: set_link_def)
    from in_update[OF this] show ?thesis
    proof
      assume "e = (b, l)"
      with assms(2) show ?thesis by simp
    next
      assume "e \<in> set (nbrs_of g a)"
      from nbrs_of_Some[OF this] assms(1) show ?thesis unfolding costs_ok_def by blast
    qed
  next
    case False
    with s have "g u = Some ns" by (simp add: set_link_def)
    with assms(1) e show ?thesis unfolding costs_ok_def by blast
  qed
qed

lemma costs_ok_add_link:
  assumes "costs_ok (graph r)" and "Finite 0 \<le> edge_cost l \<and> edge_cost l < PInfinity"
  shows "costs_ok (graph (add_link a b l r))"
proof -
  have "edge_cost (l\<lparr>from_device := b, to_device := a\<rparr>) = edge_cost l" by (simp add: edge_cost_def)
  with assms show ?thesis by (simp add: add_link_def costs_ok_set_link)
qed

lemma costs_ok_init: "costs_ok (graph routing_init)"
  by (simp add: costs_ok_def routing_init_def)

text \<open>
  The links of the data model, with a quality between 0 and 1 and a latency that is not
  negative and at most \<open>2\<^sup>1\<^sup>2\<^sup>7\<close>, have such a cost.
\<close>

lemma float32_between:
  assumes "Finite lo \<le> v" and "v \<le> Finite hi"
  shows "\<exists>z. v = Finite z \<and> lo \<le> z \<and> z \<le> hi"
  using assms by (cases v) simp_all

lemma round32_between:
  assumes "0 \<le> x" and "x \<le> hi" and "round32 hi = Finite hi"
  shows "\<exists>z. round32 x = Finite z \<and> 0 \<le> z \<and> z \<le> hi"
proof -
  have "round32 0 \<le> round32 x" using assms(1) by (intro round32_mono) simp_all
  moreover have "round32 x \<le> round32 hi" using assms(1,2) by (rule round32_mono)
  ultimately show ?thesis unfolding assms(3) by (intro float32_between) simp_all
qed

lemma edge_cost_data_model:
  assumes "quality l = Finite q" and "0 \<le> q" and "q \<le> 1"
    and "latency_ms l = Finite lat" and "0 \<le> lat" and "lat \<le> 2 ^ 127"
  shows "Finite 0 \<le> edge_cost l \<and> edge_cost l < PInfinity"
proof -
  have r1: "round32 1 = Finite 1" by code_simp
  have r50: "round32 50 = Finite 50" by code_simp
  have rt: "round32 (2 ^ 127 + 50) = Finite (2 ^ 127)" by code_simp
  have rm: "round32 (2 ^ 127) = Finite (2 ^ 127)" by code_simp
  from round32_between[of "1 - q" 1] assms(2,3) r1
  obtain x where x: "round32 (1 - q) = Finite x" "0 \<le> x" "x \<le> 1" by auto
  have "x * 50 \<le> 50" using x(3) by simp
  with round32_between[of "x * 50" 50] x(2) r50
  obtain y where y: "round32 (x * 50) = Finite y" "0 \<le> y" "y \<le> 50" by auto
  have "round32 0 \<le> round32 (lat + y)" using assms(5) y(2) by (intro round32_mono) simp_all
  moreover have "round32 (lat + y) \<le> round32 (2 ^ 127 + 50)"
    using assms(5,6) y(2,3) by (intro round32_mono) simp_all
  ultimately obtain z where z: "round32 (lat + y) = Finite z" "0 \<le> z"
    unfolding rt using float32_between[of 0 "round32 (lat + y)" "2 ^ 127"] by auto
  have "edge_cost l = Finite z"
    by (simp add: edge_cost_def fsub_def assms(1,4) x(1) y(1) z(1))
  with z(2) show ?thesis by simp
qed

subsection \<open>Shortest routes\<close>

text \<open>
  The routing scenario of the specification: in the triangle the search returns the path
  over \<open>B\<close> with latency 20 and quality 1; the direct link costs \<open>15 + 25\<close>.
\<close>

lemma find_route_triangle:
  "map_option (map_sum id fst) (find_route triangle ''A'' ''C'')
     = Some (Inr \<lparr>path = [''A'', ''B'', ''C''], total_latency_ms = Finite 20,
                   min_bandwidth_mbps = Finite 100, quality_score = Finite 1\<rparr>)"
  by code_simp

text \<open>
  The walk back from the destination stops at a device whose name is the empty string,
  the value that \<^verbatim>\<open>prev[current]\<close> reads for "no predecessor": in the line \<open>A - d - C\<close>
  with \<open>d\<close> named by the empty string there is a route from \<open>A\<close> to \<open>C\<close>, and
  \<^verbatim>\<open>find_route(A, C)\<close> returns the path \<open>[C]\<close>; with the destination \<open>d\<close> the path is
  empty and the loop over its edges reads past its end.
\<close>

lemma empty_name_cuts_route:
  "built unnamed_hop
   \<and> is_route (graph unnamed_hop) ''A'' ''C'' [''A'', [], ''C'']
   \<and> map_option (map_sum id (path \<circ> fst)) (find_route unnamed_hop ''A'' ''C'') = Some (Inr [''C''])
   \<and> map_option (map_sum id (path \<circ> fst)) (find_route unnamed_hop ''A'' []) = Some (Inl Out_Of_Bounds)"
proof (intro conjI)
  show "built unnamed_hop" unfolding unnamed_hop_def by (intro built.intros)
  show "is_route (graph unnamed_hop) ''A'' ''C'' [''A'', [], ''C'']" by code_simp
  show "map_option (map_sum id (path \<circ> fst)) (find_route unnamed_hop ''A'' ''C'') = Some (Inr [''C''])"
    by code_simp
  show "map_option (map_sum id (path \<circ> fst)) (find_route unnamed_hop ''A'' []) = Some (Inl Out_Of_Bounds)"
    by code_simp
qed

text \<open>
  Claim C8, as stated, fails: the search adds and compares the costs in binary32, and a
  sum that needs more than 24 bits is rounded. In the triangle with the links
  \<open>A - B\<close> (quality 1, latency \<open>2\<^sup>2\<^sup>4\<close>), \<open>B - C\<close> (quality 1, latency \<open>1/2\<close>) and
  \<open>A - C\<close> (quality \<open>63/64\<close>, latency \<open>2\<^sup>2\<^sup>4\<close>) the cost of the direct link and the
  cost of the path over \<open>B\<close> both round to \<open>2\<^sup>2\<^sup>4\<close>, and \<^verbatim>\<open>find_route(A, C)\<close> returns
  the direct path, whose total cost \<open>2\<^sup>2\<^sup>4 + 25/32\<close> is more than the
  \<open>2\<^sup>2\<^sup>4 + 1/2\<close> of the path over \<open>B\<close>.
\<close>

theorem find_route_counterexample:
  "built wide_triangle
   \<and> is_route (graph wide_triangle) ''A'' ''C'' [''A'', ''B'', ''C'']
   \<and> map_option (map_sum id (path \<circ> fst)) (find_route wide_triangle ''A'' ''C'')
       = Some (Inr [''A'', ''C''])
   \<and> exact_cost (graph wide_triangle) [''A'', ''C''] = 2 ^ 24 + 25 / 32
   \<and> exact_cost (graph wide_triangle) [''A'', ''B'', ''C''] = 2 ^ 24 + 1 / 2
   \<and> exact_cost (graph wide_triangle) [''A'', ''B'', ''C'']
       < exact_cost (graph wide_triangle) [''A'', ''C'']"
proof (intro conjI)
  show "built wide_triangle" unfolding wide_triangle_def by (intro built.intros)
  show "is_route (graph wide_triangle) ''A'' ''C'' [''A'', ''B'', ''C'']" by code_simp
  show "map_option (map_sum id (path \<circ> fst)) (find_route wide_triangle ''A'' ''C'')
       = Some (Inr [''A'', ''C''])"
    by code_simp
  show "exact_cost (graph wide_triangle) [''A'', ''C''] = 2 ^ 24 + 25 / 32" by code_simp
  show "exact_cost (graph wide_triangle) [''A'', ''B'', ''C''] = 2 ^ 24 + 1 / 2" by code_simp
  show "exact_cost (graph wide_triangle) [''A'', ''B'', ''C'']
       < exact_cost (graph wide_triangle) [''A'', ''C'']" by code_simp
qed

text \<open>
  Claim C8, amended. In a routing graph as the interface builds it, whose links have a
  cost \<open>latency_ms + (1 - quality) * 50\<close> that, computed in binary32, is finite and not
  negative, and whose devices, like the source, do not have the empty string as name:
  for every source and destination joined by some path whose cost, the costs of its
  edges added one after the other in binary32 from the source on as the search adds
  them, is finite, \<^verbatim>\<open>find_route\<close> returns, and returns a path from the source to the
  destination whose cost, added up in that way, is least among the costs, added up in
  that way, of all such paths.
\<close>

theorem find_route_optimal:
  assumes "graph_ok (graph r)" and "costs_ok (graph r)"
    and "source \<noteq> []" and "[] \<notin> dom (graph r)"
    and "is_route (graph r) source dest p0"
    and "route_cost (graph r) (Finite 0) p0 \<noteq> PInfinity"
  shows "\<exists>rt r'. find_route r source dest = Some (Inr (rt, r'))
           \<and> is_route (graph r) source dest (path rt)
           \<and> (\<forall>p. is_route (graph r) source dest p
                 \<longrightarrow> route_cost (graph r) (Finite 0) (path rt)
                       \<le> route_cost (graph r) (Finite 0) p)"
proof -
  have "[] \<notin> nodes (graph r) source" using assms(3,4) by (simp add: nodes_def)
  from dijkstra_optimal[OF assms(1,2) this assms(5,6)]
  obtain rt g' where d: "dijkstra (graph r) source dest = Some (Inr (rt, g'))"
    and p: "is_route (graph r) source dest (path rt)"
      "\<forall>p. is_route (graph r) source dest p
            \<longrightarrow> route_cost (graph r) (Finite 0) (path rt) \<le> route_cost (graph r) (Finite 0) p"
    by blast
  from d have "find_route r source dest = Some (Inr (rt, r\<lparr>graph := g'\<rparr>))"
    by (simp add: find_route_def)
  with p show ?thesis by blast
qed

theorem find_route_optimal_witness:
  "graph_ok (graph triangle) \<and> costs_ok (graph triangle) \<and> ''A'' \<noteq> []
   \<and> [] \<notin> dom (graph triangle)
   \<and> is_route (graph triangle) ''A'' ''C'' [''A'', ''C'']
   \<and> route_cost (graph triangle) (Finite 0) [''A'', ''C''] \<noteq> PInfinity
   \<and> (\<exists>rt r'. find_route triangle ''A'' ''C'' = Some (Inr (rt, r'))
         \<and> is_route (graph triangle) ''A'' ''C'' (path rt)
         \<and> route_cost (graph triangle) (Finite 0) (path rt)
              \<le> route_cost (graph triangle) (Finite 0) [''A'', ''C''])"
proof -
  have b: "built triangle" unfolding triangle_def by (intro built.intros)
  have g: "graph_ok (graph triangle)" using b by (rule built_graph_ok)
  have e1: "Finite 0 \<le> edge_cost (mk_link 1 10) \<and> edge_cost (mk_link 1 10) < PInfinity"
    by code_simp
  have e2: "Finite 0 \<le> edge_cost (mk_link (1/2) 15) \<and> edge_cost (mk_link (1/2) 15) < PInfinity"
    by code_simp
  have c: "costs_ok (graph triangle)"
    unfolding triangle_def
    by (intro costs_ok_add_link costs_ok_init e1 e2)
  have s: "''A'' \<noteq> []" by simp
  have n: "[] \<notin> dom (graph triangle)"
    unfolding triangle_def by (simp add: dom_add_link routing_init_def)
  have r: "is_route (graph triangle) ''A'' ''C'' [''A'', ''C'']" by code_simp
  have f: "route_cost (graph triangle) (Finite 0) [''A'', ''C''] \<noteq> PInfinity" by code_simp
  from find_route_optimal [OF g c s n r f] g c s n r f show ?thesis by blast
qed

end
